theory Spec2Isabelle
  imports Complex_Main "HOL-Library.Sublist" "HOL-Library.Log_Nat" "HOL-Library.Extended_Nat"
begin

section \<open>JavaScript values used by the rejection pipeline\<close>

text \<open>
  A JavaScript string is a sequence of UTF-16 code units. The model uses \<open>string\<close> and so
  covers the code units below 256 (ASCII and Latin-1), which is where every character the
  pipeline tests for lives: the digits, \<open>.\<close>, \<open>,\<close>, \<open>-\<close>, the line feed, the word
  \<open>Registro\<close> and the keyword phrases.

  A JavaScript number is an IEEE double. \<open>Num q\<close> stands for the double nearest to the
  rational \<open>q\<close>, which is \<open>toDouble q\<close> (the two zeros are both \<open>Num 0\<close>). A number
  read from text keeps the decimal value written there; addition rounds its operands and its
  result to doubles. Overflow to an infinity and the not-a-number value are modelled too.
\<close>

datatype jsnum = Num rat | PosInfinity | NegInfinity | NaN

definition isFinite :: "jsnum \<Rightarrow> bool" where
  \<comment> \<open>\<open>Number.isFinite\<close>\<close>
  "isFinite v = (case v of Num q \<Rightarrow> True | _ \<Rightarrow> False)"

definition nonNegative :: "jsnum \<Rightarrow> bool" where
  \<comment> \<open>\<open>v >= 0\<close>\<close>
  "nonNegative v = (case v of Num q \<Rightarrow> 0 \<le> q | PosInfinity \<Rightarrow> True | _ \<Rightarrow> False)"

definition isDigit :: "char \<Rightarrow> bool" where
  \<comment> \<open>the regular-expression class \<open>\d\<close> and the grammar's DecimalDigit\<close>
  "isDigit c = (48 \<le> (of_char c :: nat) \<and> (of_char c :: nat) \<le> 57)"

definition isSpace :: "char \<Rightarrow> bool" where
  \<comment> \<open>WhiteSpace and LineTerminator below 256: TAB, LF, VT, FF, CR, SP, NBSP
      (the class \<open>\s\<close>, and what \<open>trim\<close> and \<open>parseFloat\<close> skip)\<close>
  "isSpace c = ((of_char c :: nat) \<in> {9, 10, 11, 12, 13, 32, 160})"

definition trim :: "string \<Rightarrow> string" where
  "trim s = rev (dropWhile isSpace (rev (dropWhile isSpace s)))"

definition toLowerChar :: "char \<Rightarrow> char" where
  \<comment> \<open>A-Z, and the Latin-1 capitals 0xC0-0xDE without the multiplication sign 0xD7\<close>
  "toLowerChar c =
     (let n = (of_char c :: nat)
      in if (65 \<le> n \<and> n \<le> 90) \<or> (192 \<le> n \<and> n \<le> 222 \<and> n \<noteq> 215)
         then char_of (n + 32) else c)"

definition toLowerCase :: "string \<Rightarrow> string" where
  "toLowerCase s = map toLowerChar s"

fun includesStr :: "string \<Rightarrow> string \<Rightarrow> bool" where
  \<comment> \<open>\<open>s.includes(kw)\<close>: \<open>kw\<close> occurs in \<open>s\<close> as a contiguous run\<close>
  "includesStr [] kw = (kw = [])"
| "includesStr (c # cs) kw = (prefix kw (c # cs) \<or> includesStr cs kw)"

fun split :: "char \<Rightarrow> string \<Rightarrow> string list" where
  \<comment> \<open>\<open>s.split(sep)\<close> for a one-character separator; the empty string gives one empty part\<close>
  "split sep [] = [[]]"
| "split sep (c # cs) =
     (if c = sep then [] # split sep cs
      else (case split sep cs of p # ps \<Rightarrow> (c # p) # ps | [] \<Rightarrow> [[c]]))"

subsection \<open>The builtin parseFloat\<close>

definition digitsValue :: "string \<Rightarrow> nat" where
  "digitsValue ds = foldl (\<lambda>a c. 10 * a + ((of_char c :: nat) - 48)) 0 ds"

definition DBL_OVERFLOW :: rat where
  \<comment> \<open>halfway between the largest double and \<open>2 ^ 1024\<close>: from here on rounding gives an infinity\<close>
  "DBL_OVERFLOW = 2 ^ 1024 - 2 ^ 970"

definition toNumber :: "rat \<Rightarrow> jsnum" where
  "toNumber q =
     (if DBL_OVERFLOW \<le> q then PosInfinity
      else if q \<le> - DBL_OVERFLOW then NegInfinity
      else Num q)"

subsection \<open>Rounding to the nearest double\<close>

text \<open>
  A finite double is \<open>m * 2 ^ e\<close> for integers \<open>m\<close> and \<open>e\<close> with \<open>\<bar>m\<bar> < 2 ^ 53\<close> and
  \<open>- 1074 \<le> e\<close>. \<open>toDouble x\<close> is the one nearest to \<open>x\<close>, a tie going to the even
  significand (round to nearest, ties to even, the rounding of every JavaScript operation).
  The exponent has no upper bound here: the overflow to an infinity, from \<open>DBL_OVERFLOW\<close>
  on, is decided by the callers.
\<close>

definition ilog2 :: "rat \<Rightarrow> int" where
  \<comment> \<open>for \<open>0 < x\<close>: the exponent \<open>k\<close> with \<open>2 ^ k \<le> x < 2 ^ (k + 1)\<close>\<close>
  "ilog2 x =
     (case quotient_of x of
        (a, b) \<Rightarrow> let k = bitlen a - bitlen b in if 2 powi k \<le> x then k else k - 1)"

definition roundHalfEven :: "rat \<Rightarrow> int" where
  \<comment> \<open>the nearest integer, the even one of the two when \<open>m\<close> is halfway\<close>
  "roundHalfEven m =
     (let f = \<lfloor>m\<rfloor>; d = m - of_int f
      in if d < 1 / 2 then f else if 1 / 2 < d then f + 1 else if even f then f else f + 1)"

definition toDouble :: "rat \<Rightarrow> rat" where
  \<comment> \<open>53 significant bits for a normal number, multiples of \<open>2 ^ - 1074\<close> for a subnormal one\<close>
  "toDouble x =
     (if x = 0 then 0
      else let e = max (ilog2 \<bar>x\<bar> - 52) (- 1074)
           in of_int (roundHalfEven (x / 2 powi e)) * 2 powi e)"

definition roundNumber :: "rat \<Rightarrow> jsnum" where
  \<comment> \<open>the Number an arithmetic operation returns for the exact result \<open>q\<close>\<close>
  "roundNumber q =
     (if DBL_OVERFLOW \<le> q then PosInfinity
      else if q \<le> - DBL_OVERFLOW then NegInfinity
      else Num (toDouble q))"

definition exponentPart :: "string \<Rightarrow> int" where
  \<comment> \<open>an ExponentPart right after the mantissa, 0 when there is none\<close>
  "exponentPart r =
     (case r of
        [] \<Rightarrow> 0
      | c # cs \<Rightarrow>
          if c = CHR ''e'' \<or> c = CHR ''E'' then
            (case cs of
               [] \<Rightarrow> 0
             | d # ds \<Rightarrow>
                 if d = CHR ''-'' then
                   (if takeWhile isDigit ds = [] then 0 else - int (digitsValue (takeWhile isDigit ds)))
                 else if d = CHR ''+'' then int (digitsValue (takeWhile isDigit ds))
                 else int (digitsValue (takeWhile isDigit cs)))
          else 0)"

definition scale10 :: "rat \<Rightarrow> int \<Rightarrow> rat" where
  "scale10 q e = (if 0 \<le> e then q * 10 ^ nat e else q / 10 ^ nat (- e))"

definition strSign :: "string \<Rightarrow> bool \<times> string" where
  \<comment> \<open>an optional sign: whether it is \<open>-\<close>, and the text after it\<close>
  "strSign s =
     (case s of
        [] \<Rightarrow> (False, [])
      | c # cs \<Rightarrow> if c = CHR ''-'' then (True, cs) else if c = CHR ''+'' then (False, cs) else (False, s))"

definition strMantissa :: "string \<Rightarrow> (rat \<times> string) option" where
  \<comment> \<open>digits, an optional dot and more digits, at least one digit in all: the value and the
      text after it; \<open>None\<close> when no digit is there\<close>
  "strMantissa body =
     (let intDigits = takeWhile isDigit body;
          afterInt = dropWhile isDigit body;
          hasDot = (afterInt \<noteq> [] \<and> hd afterInt = CHR ''.'');
          fracDigits = (if hasDot then takeWhile isDigit (tl afterInt) else []);
          afterFrac = (if hasDot then dropWhile isDigit (tl afterInt) else afterInt)
      in if intDigits = [] \<and> fracDigits = [] then None
         else Some (of_nat (digitsValue intDigits)
                    + of_nat (digitsValue fracDigits) / 10 ^ length fracDigits, afterFrac))"

definition parseFloat :: "string \<Rightarrow> jsnum" where
  \<comment> \<open>the longest prefix of the trimmed string that is a StrDecimalLiteral; NaN when there is none\<close>
  "parseFloat inputString =
     (case strSign (dropWhile isSpace inputString) of
        (neg, body) \<Rightarrow>
          if prefix ''Infinity'' body then (if neg then NegInfinity else PosInfinity)
          else
            (case strMantissa body of
               None \<Rightarrow> NaN
             | Some (mantissa, afterFrac) \<Rightarrow>
                 let v = scale10 mantissa (exponentPart afterFrac)
                 in toNumber (if neg then - v else v)))"

definition orElse :: "jsnum \<Rightarrow> jsnum \<Rightarrow> jsnum" where
  \<comment> \<open>\<open>v || d\<close> on numbers: zero and NaN are falsy\<close>
  "orElse v d = (if v = NaN \<or> v = Num 0 then d else v)"

section \<open>AmountParser\<close>

definition keepAmountChar :: "char \<Rightarrow> bool" where
  \<comment> \<open>the characters that survive \<open>replace(/[^\d,.-]/g, "")\<close>\<close>
  "keepAmountChar c = (isDigit c \<or> c = CHR '','' \<or> c = CHR ''.'' \<or> c = CHR ''-'')"

definition commaToDot :: "string \<Rightarrow> string" where
  \<comment> \<open>\<open>replace(/,/g, ".")\<close>\<close>
  "commaToDot s = map (\<lambda>c. if c = CHR '','' then CHR ''.'' else c) s"

definition removeDots :: "string \<Rightarrow> string" where
  \<comment> \<open>\<open>replace(/\./g, "")\<close>\<close>
  "removeDots s = filter (\<lambda>c. c \<noteq> CHR ''.'') s"

definition resolveSeparators :: "string \<Rightarrow> string" where
  "resolveSeparators s =
     (if CHR ''.'' \<in> set s \<and> CHR '','' \<in> set s then commaToDot (removeDots s)
      else if CHR '','' \<in> set s then commaToDot s
      else s)"

definition collapseDots :: "string \<Rightarrow> string" where
  "collapseDots s =
     (let parts = split CHR ''.'' s
      in if length parts > 2 then concat (butlast parts) @ ''.'' @ last parts else s)"

definition cleanAmount :: "string \<Rightarrow> string" where
  \<comment> \<open>the text handed to \<open>parseFloat\<close>: the part the three copies of \<open>parseAmount\<close>
      share, from the first \<open>replace\<close> to the rejoined \<open>parts\<close>\<close>
  "cleanAmount str = collapseDots (resolveSeparators (filter keepAmountChar str))"

definition stripAmount :: "string \<Rightarrow> jsnum" where
  \<comment> \<open>\<open>parseFloat(cleaned) || 0.0\<close>; the \<open>catch\<close> is dead code, \<open>parseFloat\<close> does not throw\<close>
  "stripAmount str = orElse (parseFloat (cleanAmount str)) (Num 0)"

definition parseAmount_txt :: "string \<Rightarrow> jsnum" where
  \<comment> \<open>\<open>parseAmount\<close> of the text path: the argument is a string\<close>
  "parseAmount_txt raw = (if raw = [] then Num 0 else stripAmount raw)"

section \<open>FixedFieldExtractor\<close>

definition slice :: "string \<Rightarrow> int \<Rightarrow> int \<Rightarrow> string" where
  \<comment> \<open>\<open>String.prototype.slice\<close> on integers: a negative bound counts from the end\<close>
  "slice s startIdx endIdx =
     (let len = int (length s);
          from = (if startIdx < 0 then max (len + startIdx) 0 else min startIdx len);
          to = (if endIdx < 0 then max (len + endIdx) 0 else min endIdx len)
      in take (nat (to - from)) (drop (nat from) s))"

definition sliceFixed :: "string \<Rightarrow> int \<Rightarrow> int \<Rightarrow> string" where
  "sliceFixed line startCol endCol =
     (if line = [] then []
      else let idx = max 0 (startCol - 1)
           in if idx < int (length line) then trim (slice line idx endCol) else [])"

section \<open>RegistroExtractor\<close>

definition digitRun :: "nat option \<Rightarrow> string \<Rightarrow> string" where
  \<comment> \<open>the greedy run \<open>\d{1,n}\<close> (\<open>Some n\<close>) or \<open>\d+\<close> (\<open>None\<close>) at the head of a string\<close>
  "digitRun cap s = (case cap of None \<Rightarrow> takeWhile isDigit s | Some n \<Rightarrow> take n (takeWhile isDigit s))"

definition matchRegistroAt :: "nat option \<Rightarrow> string \<Rightarrow> (string \<times> string) option" where
  \<comment> \<open>\<open>Registro\s+(\d...)\<close> anchored at the head: the capture and the text after the match\<close>
  "matchRegistroAt cap s =
     (if prefix ''Registro'' s then
        let r = drop 8 s;
            afterWs = dropWhile isSpace r;
            ds = digitRun cap afterWs
        in if takeWhile isSpace r \<noteq> [] \<and> ds \<noteq> [] then Some (ds, drop (length ds) afterWs) else None
      else None)"

definition capOk :: "nat option \<Rightarrow> string \<Rightarrow> bool" where
  \<comment> \<open>the upper bound of the quantifier\<close>
  "capOk cap ds = (case cap of None \<Rightarrow> True | Some n \<Rightarrow> length ds \<le> n)"

function matchAllRegistro :: "nat option \<Rightarrow> string \<Rightarrow> string list" where
  \<comment> \<open>the captures of \<open>matchAll\<close> with the global flag: after a match the scan resumes behind it\<close>
  "matchAllRegistro cap [] = []"
| "matchAllRegistro cap (c # cs) =
     (case matchRegistroAt cap (c # cs) of
        Some (ds, rest) \<Rightarrow> ds # matchAllRegistro cap rest
      | None \<Rightarrow> matchAllRegistro cap cs)"
  by pat_completeness auto
termination
proof (relation "measure (\<lambda>(cap, s). length s)")
  show "wf (measure (\<lambda>(cap :: nat option, s :: string). length s))"
    by simp
next
  fix cap c cs
  show "((cap, cs), cap, c # cs) \<in> measure (\<lambda>(cap, s). length s)"
    by simp
next
  fix cap :: "nat option" and c :: char and cs x2 ds rest
  assume m: "matchRegistroAt cap (c # cs) = Some x2" and x2: "(ds, rest) = x2"
  from m have p: "prefix ''Registro'' (c # cs)"
    by (simp add: matchRegistroAt_def split: if_splits)
  from m x2 p have "rest = drop (length ds) (dropWhile isSpace (drop 8 (c # cs)))"
    by (auto simp: matchRegistroAt_def Let_def split: if_splits)
  then have "length rest \<le> length (dropWhile isSpace (drop 8 (c # cs)))"
    by simp
  also have "\<dots> \<le> length (drop 8 (c # cs))"
    by (rule length_dropWhile_le)
  also have "\<dots> < length (c # cs)"
    using p by (auto simp: prefix_def)
  finally show "((cap, rest), cap, c # cs) \<in> measure (\<lambda>(cap, s). length s)"
    by simp
qed

definition parseInt :: "string \<Rightarrow> int" where
  \<comment> \<open>\<open>parseInt\<close> on a run of at most 5 decimal digits, as \<open>\d{1,5}\<close> captures: an integer
      below \<open>2 ^ 53\<close>, which a double holds exactly\<close>
  "parseInt ds = int (digitsValue ds)"

definition natToNumber :: "nat \<Rightarrow> enat" where
  \<comment> \<open>the Number nearest to a natural number: the number itself up to \<open>2 ^ 53\<close>, a rounded
      integer beyond, \<open>Infinity\<close> from \<open>DBL_OVERFLOW\<close> on\<close>
  "natToNumber n =
     (if DBL_OVERFLOW \<le> of_nat n then \<infinity> else enat (nat \<lfloor>toDouble (of_nat n)\<rfloor>))"

definition parseIntNumber :: "string \<Rightarrow> enat" where
  \<comment> \<open>\<open>parseInt\<close> on a run of decimal digits of any length, as \<open>\d+\<close> captures: the Number
      nearest to the decimal value\<close>
  "parseIntNumber ds = natToNumber (digitsValue ds)"

definition plusOne :: "enat \<Rightarrow> enat" where
  \<comment> \<open>\<open>x + 1\<close> on a Number that is a natural number or \<open>Infinity\<close>\<close>
  "plusOne x = (case x of enat n \<Rightarrow> natToNumber (n + 1) | \<infinity> \<Rightarrow> \<infinity>)"

definition fromSet :: "'a list \<Rightarrow> 'a list" where
  \<comment> \<open>\<open>Array.from(new Set(xs))\<close>: the first occurrence of each value, in order\<close>
  "fromSet xs = rev (remdups (rev xs))"

definition extractRegistrosFromPdf :: "string \<Rightarrow> int list" where
  \<comment> \<open>the argument is the decoded text of the PDF buffer\<close>
  "extractRegistrosFromPdf pdfText =
     sort (fromSet (map parseInt (matchAllRegistro (Some 5) pdfText)))"

definition extractRowNumbersFromPdf :: "string \<Rightarrow> enat list" where
  \<comment> \<open>the row numbers are Numbers: natural numbers, or \<open>Infinity\<close> for a run of digits
      beyond the range of a double\<close>
  "extractRowNumbersFromPdf pdfText =
     sort (fromSet (map (\<lambda>m. plusOne (parseIntNumber m)) (matchAllRegistro None pdfText)))"

section \<open>Records and the aggregated payload\<close>

record rejection =
  dni_cex :: string
  nombre :: string
  importe :: jsnum
  Referencia :: string
  Estado :: string
  Codigo_de_Rechazo :: string
  Descripcion_de_Rechazo :: string

record payload =
  results :: "rejection list"
  totalTransactions :: nat
  totalAmount :: jsnum

datatype error = Error string

fun jsadd :: "jsnum \<Rightarrow> jsnum \<Rightarrow> jsnum" where
  \<comment> \<open>\<open>+\<close> on numbers: the exact sum of the two doubles, rounded\<close>
  "jsadd (Num a) (Num b) = roundNumber (toDouble a + toDouble b)"
| "jsadd NaN y = NaN"
| "jsadd x NaN = NaN"
| "jsadd PosInfinity NegInfinity = NaN"
| "jsadd NegInfinity PosInfinity = NaN"
| "jsadd PosInfinity y = PosInfinity"
| "jsadd x PosInfinity = PosInfinity"
| "jsadd NegInfinity y = NegInfinity"
| "jsadd x NegInfinity = NegInfinity"

definition aggregate :: "rejection list \<Rightarrow> payload" where
  \<comment> \<open>\<open>rows.length\<close>, \<open>rows.reduce((sum, row) => sum + row.importe, 0)\<close> and the response body\<close>
  "aggregate rows =
     \<lparr>results = rows,
      totalTransactions = length rows,
      totalAmount = foldl (\<lambda>sum row. jsadd sum (importe row)) (Num 0) rows\<rparr>"

definition ESTADO :: string where
  "ESTADO = ''rechazada''"

section \<open>The text path\<close>

definition MULT :: int where
  "MULT = 2"

record pos =
  start :: int
  finish :: int

definition TXT_POS_dni :: pos where "TXT_POS_dni = \<lparr>start = 25, finish = 33\<rparr>"
definition TXT_POS_nombre :: pos where "TXT_POS_nombre = \<lparr>start = 40, finish = 85\<rparr>"
definition TXT_POS_referencia :: pos where "TXT_POS_referencia = \<lparr>start = 115, finish = 126\<rparr>"
definition TXT_POS_importe :: pos where "TXT_POS_importe = \<lparr>start = 186, finish = 195\<rparr>"

definition txtRow :: "string \<Rightarrow> string \<Rightarrow> string \<Rightarrow> rejection" where
  \<comment> \<open>the body of the loop for one accepted line\<close>
  "txtRow lnText code desc =
     (let dni = sliceFixed lnText (start TXT_POS_dni) (finish TXT_POS_dni);
          nom = sliceFixed lnText (start TXT_POS_nombre) (finish TXT_POS_nombre);
          ref = sliceFixed lnText (start TXT_POS_referencia) (finish TXT_POS_referencia);
          impStr = sliceFixed lnText (start TXT_POS_importe) (finish TXT_POS_importe);
          imp = parseAmount_txt impStr
      in \<lparr>dni_cex = dni, nombre = nom, importe = imp, Referencia = ref, Estado = ESTADO,
          Codigo_de_Rechazo = code, Descripcion_de_Rechazo = desc\<rparr>)"

fun pushRows :: "string list \<Rightarrow> string \<Rightarrow> string \<Rightarrow> int list \<Rightarrow> rejection list \<Rightarrow> rejection list" where
  \<comment> \<open>\<open>for (const i of indices)\<close>, with \<open>rows\<close> as the accumulator\<close>
  "pushRows lines code desc [] rows = rows"
| "pushRows lines code desc (i # indices) rows =
     (if i \<ge> 1 \<and> i \<le> int (length lines)
      then pushRows lines code desc indices (rows @ [txtRow (lines ! nat (i - 1)) code desc])
      else pushRows lines code desc indices rows)"

definition handler_txt :: "string option \<Rightarrow> string option \<Rightarrow> string \<Rightarrow> string \<Rightarrow> error + payload" where
  \<comment> \<open>\<open>pdfFile\<close> is the decoded text of the uploaded PDF, \<open>txtFile\<close> the text of the companion
      file, \<open>None\<close> when the form lacks the field; \<open>Inl\<close> is the 500 response\<close>
  "handler_txt pdfFile txtFile code desc =
     (case (pdfFile, txtFile) of
        (Some pdfText, Some txtContent) \<Rightarrow>
          let lines = split (CHR 0x0A) txtContent;
              registros = extractRegistrosFromPdf pdfText;
              indices = sort (map (\<lambda>r. r * MULT) registros);
              rows = pushRows lines code desc indices []
          in Inr (aggregate rows)
      | _ \<Rightarrow> Inl (Error ''Missing files''))"

section \<open>The spreadsheet paths\<close>

text \<open>
  The decoded sheet is a list of rows of cells. A cell holds text, or is absent: \<open>Undefined\<close>
  is what indexing past the end of a row gives. Numeric and boolean cells, whose text is the
  runtime's number formatting, are outside the model.
\<close>

datatype cell = Undefined | Null | Str string

definition cellAt :: "cell list \<Rightarrow> nat \<Rightarrow> cell" where
  \<comment> \<open>\<open>row[i]\<close>\<close>
  "cellAt row i = (if i < length row then row ! i else Undefined)"

definition String :: "cell \<Rightarrow> string" where
  "String c = (case c of Str s \<Rightarrow> s | Null \<Rightarrow> ''null'' | Undefined \<Rightarrow> ''undefined'')"

definition truthy :: "cell \<Rightarrow> bool" where
  "truthy c = (case c of Str s \<Rightarrow> s \<noteq> [] | _ \<Rightarrow> False)"

definition orEmpty :: "cell \<Rightarrow> cell" where
  \<comment> \<open>\<open>c || ''\<close>\<close>
  "orEmpty c = (if truthy c then c else Str [])"

definition parseAmount :: "cell \<Rightarrow> jsnum" where
  \<comment> \<open>\<open>parseAmount\<close> of the spreadsheet and archive paths (the two copies are the same text)\<close>
  "parseAmount raw = (if raw = Null \<or> raw = Undefined then Num 0 else stripAmount (String raw))"

datatype workbook = Unreadable string | Sheet "cell list list"

definition xlsxRow :: "cell list \<Rightarrow> string \<Rightarrow> string \<Rightarrow> rejection" where
  "xlsxRow row code desc =
     \<lparr>dni_cex = String (orEmpty (cellAt row 0)),
      nombre = String (if truthy (cellAt row 3) then cellAt row 3 else orEmpty (cellAt row 1)),
      importe = parseAmount (cellAt row 12),
      Referencia = String (orEmpty (cellAt row 7)),
      Estado = ESTADO,
      Codigo_de_Rechazo = code,
      Descripcion_de_Rechazo = desc\<rparr>"

definition handler_xlsx :: "string option \<Rightarrow> workbook option \<Rightarrow> string \<Rightarrow> string \<Rightarrow> error + payload" where
  \<comment> \<open>\<open>excelFile\<close> is what \<open>XLSX.read\<close> and \<open>sheet_to_json\<close> make of the upload:
      \<open>Unreadable msg\<close> when they throw\<close>
  "handler_xlsx pdfFile excelFile code desc =
     (case (pdfFile, excelFile) of
        (Some pdfText, Some wb) \<Rightarrow>
          let rowNumbers = extractRowNumbersFromPdf pdfText
          in (case wb of
                Unreadable msg \<Rightarrow> Inl (Error msg)
              | Sheet data \<Rightarrow>
                  let validRows = filter (\<lambda>i. i \<ge> 0 \<and> i < enat (length data)) rowNumbers;
                      selectedData = map (\<lambda>i. data ! the_enat i) validRows;
                      rows = map (\<lambda>row. xlsxRow row code desc) selectedData
                  in Inr (aggregate rows))
      | _ \<Rightarrow> Inl (Error ''Missing files''))"

definition KEYWORDS_NO_TIT :: "string list" where
  "KEYWORDS_NO_TIT =
     [''no es titular'',
      ''beneficiario no'',
      ''cliente no titular'',
      ''no titular'',
      ''continuar'',
      ''puedes continuar'',
      ''si deseas, puedes continuar'']"

definition hasStatus :: "cell list \<Rightarrow> bool" where
  \<comment> \<open>the filter on column O (index 14)\<close>
  "hasStatus row =
     (let colO = cellAt row 14
      in colO \<noteq> Null \<and> colO \<noteq> Undefined \<and> trim (String colO) \<noteq> [])"

definition ibkRow :: "cell list \<Rightarrow> rejection" where
  "ibkRow row =
     (let situacion = toLowerCase (String (orEmpty (cellAt row 14)));
          isNoTitular = list_ex (\<lambda>kw. includesStr situacion kw) KEYWORDS_NO_TIT
      in \<lparr>dni_cex = String (orEmpty (cellAt row 4)),
          nombre = String (orEmpty (cellAt row 5)),
          importe = parseAmount (cellAt row 13),
          Referencia = String (orEmpty (cellAt row 7)),
          Estado = ESTADO,
          Codigo_de_Rechazo = (if isNoTitular then ''R016'' else ''R002''),
          Descripcion_de_Rechazo =
            (if isNoTitular then ''CLIENTE NO TITULAR DE LA CUENTA'' else ''CUENTA INVALIDA'')\<rparr>)"

datatype archive = Corrupt string | NoExcel | Excel workbook

definition handler_ibk :: "archive option \<Rightarrow> error + payload" where
  \<comment> \<open>\<open>zipFile\<close> is what decompression finds in the upload: \<open>Corrupt msg\<close> when it throws,
      \<open>NoExcel\<close> when no entry ends in .xlsx or .xls\<close>
  "handler_ibk zipFile =
     (case zipFile of
        None \<Rightarrow> Inl (Error ''Missing ZIP file'')
      | Some (Corrupt msg) \<Rightarrow> Inl (Error msg)
      | Some NoExcel \<Rightarrow> Inl (Error ''No Excel file found in ZIP'')
      | Some (Excel (Unreadable msg)) \<Rightarrow> Inl (Error msg)
      | Some (Excel (Sheet data)) \<Rightarrow>
          let dataFrom11 = drop 11 data;
              validRows = filter hasStatus dataFrom11;
              rows = map ibkRow validRows
          in Inr (aggregate rows))"

section \<open>Sample inputs and auxiliary notions for the statements\<close>

definition occurrences :: "string \<Rightarrow> string \<Rightarrow> nat" where
  \<comment> \<open>at how many positions of \<open>s\<close> the text \<open>kw\<close> starts\<close>
  "occurrences kw s = length (filter (prefix kw) (suffixes s))"





definition sampleLine :: string where
  \<comment> \<open>a line of the fixed-width report: columns 25-33, 40-85, 115-126 and 186-195 are filled\<close>
  "sampleLine = ''                        12345678       PEREZ JUAN                                                                 REF000000001                                                             1.234,56''"

definition sampleTxt :: string where
  \<comment> \<open>a companion text of ten lines, the tenth being \<open>sampleLine\<close>\<close>
  "sampleTxt = ''l1'' @ [CHR 0x0A] @ ''l2'' @ [CHR 0x0A] @ ''l3'' @ [CHR 0x0A] @ ''l4'' @ [CHR 0x0A]
     @ ''l5'' @ [CHR 0x0A] @ ''l6'' @ [CHR 0x0A] @ ''l7'' @ [CHR 0x0A] @ ''l8'' @ [CHR 0x0A]
     @ ''l9'' @ [CHR 0x0A] @ sampleLine"

definition emptyRow :: "string \<Rightarrow> string \<Rightarrow> rejection" where
  \<comment> \<open>the record built from a line too short to reach any field\<close>
  "emptyRow code desc =
     \<lparr>dni_cex = [], nombre = [], importe = Num 0, Referencia = [], Estado = ''rechazada'',
      Codigo_de_Rechazo = code, Descripcion_de_Rechazo = desc\<rparr>"


definition acceptedLineIndices :: "string \<Rightarrow> string list \<Rightarrow> int list" where
  \<comment> \<open>the indices for which the loop of the text path pushes a row\<close>
  "acceptedLineIndices pdfText lines =
     filter (\<lambda>i. i \<ge> 1 \<and> i \<le> int (length lines))
       (sort (map (\<lambda>r. r * MULT) (extractRegistrosFromPdf pdfText)))"

definition validRows :: "string \<Rightarrow> cell list list \<Rightarrow> enat list" where
  \<comment> \<open>\<open>validRows\<close> of the spreadsheet path\<close>
  "validRows pdfText data =
     filter (\<lambda>i. i \<ge> 0 \<and> i < enat (length data)) (extractRowNumbersFromPdf pdfText)"

definition sheetRow :: "string \<Rightarrow> string \<Rightarrow> string \<Rightarrow> string \<Rightarrow> string \<Rightarrow> cell list" where
  \<comment> \<open>a row of the archive's sheet: identifier, name, reference, amount and status in columns
      4, 5, 7, 13 and 14\<close>
  "sheetRow dni nom ref imp situacion =
     [Str [], Str [], Str [], Str [], Str dni, Str nom, Str [], Str ref,
      Str [], Str [], Str [], Str [], Str [], Str imp, Str situacion]"

definition sampleSheet :: "cell list list" where
  \<comment> \<open>eleven heading rows, then three data rows, the last without a status\<close>
  "sampleSheet =
     replicate 11 [] @
     [sheetRow ''41112223'' ''ROJAS ANA'' ''REF01'' ''1.234,56'' ''Cliente NO titular'',
      sheetRow ''40001112'' ''DIAZ LUIS'' ''REF02'' ''10'' ''saldo insuficiente'',
      sheetRow ''47778889'' ''SOTO EVA'' ''REF03'' ''5'' ''  '']"

section \<open>Properties of rounding\<close>

lemma pow2_nat: "0 \<le> k \<Longrightarrow> (2::rat) powi k = 2 ^ nat k"
  by (rule power_int_nonneg_exp)

lemma ilog2_bounds:
  assumes "0 < x"
  shows "2 powi (ilog2 x) \<le> x" and "x < 2 powi (ilog2 x + 1)"
proof -
  obtain a b where q: "quotient_of x = (a, b)"
    by (cases "quotient_of x")
  have b: "0 < b"
    using quotient_of_denom_pos [OF q] .
  have x: "x = of_int a / of_int b"
    using quotient_of_div [OF q] .
  have a: "0 < a"
    using assms b x by (simp add: zero_less_divide_iff)
  define la where "la = bitlen a"
  define lb where "lb = bitlen b"
  have la1: "1 \<le> la" and lb1: "1 \<le> lb"
    using a b bitlen_eq_zero_iff [of a] bitlen_eq_zero_iff [of b] bitlen_nonneg [of a] bitlen_nonneg [of b]
    unfolding la_def lb_def by linarith+
  have ba: "2 ^ nat (la - 1) \<le> a" "a < 2 ^ nat la"
    using bitlen_bounds [OF a] unfolding la_def by auto
  have bb: "2 ^ nat (lb - 1) \<le> b" "b < 2 ^ nat lb"
    using bitlen_bounds [OF b] unfolding lb_def by auto
  have ra: "(2::rat) powi (la - 1) \<le> of_int a" "(of_int a :: rat) < 2 powi la"
  proof -
    have "(of_int (2 ^ nat (la - 1)) :: rat) \<le> of_int a"
      using ba(1) by (simp only: of_int_le_iff)
    then show "(2::rat) powi (la - 1) \<le> of_int a"
      using la1 by (simp add: power_int_nonneg_exp)
    have "(of_int a :: rat) < of_int (2 ^ nat la)"
      using ba(2) by (simp only: of_int_less_iff)
    then show "(of_int a :: rat) < 2 powi la"
      using la1 by (simp add: power_int_nonneg_exp)
  qed
  have rb: "(2::rat) powi (lb - 1) \<le> of_int b" "(of_int b :: rat) < 2 powi lb"
  proof -
    have "(of_int (2 ^ nat (lb - 1)) :: rat) \<le> of_int b"
      using bb(1) by (simp only: of_int_le_iff)
    then show "(2::rat) powi (lb - 1) \<le> of_int b"
      using lb1 by (simp add: power_int_nonneg_exp)
    have "(of_int b :: rat) < of_int (2 ^ nat lb)"
      using bb(2) by (simp only: of_int_less_iff)
    then show "(of_int b :: rat) < 2 powi lb"
      using lb1 by (simp add: power_int_nonneg_exp)
  qed
  have bpos: "(0::rat) < of_int b"
    using b by simp
  have low: "(2::rat) powi (la - lb - 1) \<le> x"
  proof -
    have "(2::rat) powi (la - lb - 1) * of_int b \<le> 2 powi (la - lb - 1) * 2 powi lb"
      using rb(2) by (intro mult_left_mono) auto
    also have "\<dots> = 2 powi (la - 1)"
      by (simp flip: power_int_add)
    also have "\<dots> \<le> of_int a"
      by (rule ra(1))
    finally show ?thesis
      using bpos by (simp add: x pos_le_divide_eq)
  qed
  have up: "x < (2::rat) powi (la - lb + 1)"
  proof -
    have "(of_int a :: rat) < 2 powi la"
      by (rule ra(2))
    also have "\<dots> = 2 powi (la - lb + 1) * 2 powi (lb - 1)"
      by (simp flip: power_int_add)
    also have "\<dots> \<le> 2 powi (la - lb + 1) * of_int b"
      using rb(1) by (intro mult_left_mono) auto
    finally show ?thesis
      using bpos by (simp add: x pos_divide_less_eq)
  qed
  have i: "ilog2 x = (if 2 powi (la - lb) \<le> x then la - lb else la - lb - 1)"
    by (simp add: ilog2_def q Let_def la_def lb_def)
  show "2 powi (ilog2 x) \<le> x"
    using low by (simp add: i)
  show "x < 2 powi (ilog2 x + 1)"
    using up by (auto simp: i not_le)
qed

lemma pow2_less_cancel: "(2::rat) powi m < 2 powi n \<Longrightarrow> m < n"
proof (rule ccontr)
  assume "(2::rat) powi m < 2 powi n" and "\<not> m < n"
  then have "(2::rat) powi n \<le> 2 powi m"
    by (intro power_int_increasing) auto
  with \<open>(2::rat) powi m < 2 powi n\<close> show False
    by linarith
qed

lemma ilog2_unique:
  assumes "0 < x" "2 powi k \<le> x" "x < 2 powi (k + 1)"
  shows "ilog2 x = k"
proof -
  have "(2::rat) powi (ilog2 x) < 2 powi (k + 1)"
    using ilog2_bounds(1) [OF assms(1)] assms(3) by linarith
  then have "ilog2 x < k + 1"
    by (rule pow2_less_cancel)
  moreover have "(2::rat) powi k < 2 powi (ilog2 x + 1)"
    using ilog2_bounds(2) [OF assms(1)] assms(2) by linarith
  then have "k < ilog2 x + 1"
    by (rule pow2_less_cancel)
  ultimately show ?thesis
    by linarith
qed

lemma roundHalfEven_error: "\<bar>of_int (roundHalfEven m) - m\<bar> \<le> 1 / 2"
proof -
  have "of_int \<lfloor>m\<rfloor> \<le> m" "m < of_int \<lfloor>m\<rfloor> + 1"
    by linarith+
  then show ?thesis
    by (auto simp: roundHalfEven_def Let_def)
qed

lemma roundHalfEven_of_int: "roundHalfEven (of_int n) = n"
  by (simp add: roundHalfEven_def)

lemma toDouble_zero: "toDouble 0 = 0"
  by (simp add: toDouble_def)

lemma toDouble_error:
  "\<bar>toDouble x - x\<bar> \<le> \<bar>x\<bar> / 2 ^ 53 + 1 / 2 ^ 1075"
proof (cases "x = 0")
  case True
  then show ?thesis by (simp add: toDouble_def)
next
  case False
  define k where "k = ilog2 \<bar>x\<bar>"
  define e where "e = max (k - 52) (- 1074)"
  define m where "m = x / 2 powi e"
  have pos: "(0::rat) < 2 powi e"
    by simp
  have x: "x = m * 2 powi e"
    using pos by (simp add: m_def)
  have t: "toDouble x = of_int (roundHalfEven m) * 2 powi e"
    using False by (simp add: toDouble_def Let_def k_def e_def m_def)
  have "toDouble x - x = (of_int (roundHalfEven m) - m) * 2 powi e"
    unfolding t using x by (simp add: algebra_simps)
  then have "\<bar>toDouble x - x\<bar> = \<bar>of_int (roundHalfEven m) - m\<bar> * 2 powi e"
    by (simp add: abs_mult)
  also have "\<dots> \<le> 1 / 2 * 2 powi e"
    using roundHalfEven_error [of m] by (intro mult_right_mono) auto
  finally have err: "\<bar>toDouble x - x\<bar> \<le> 2 powi e / 2"
    by simp
  have lowx: "2 powi k \<le> \<bar>x\<bar>"
    unfolding k_def using False by (intro ilog2_bounds(1)) simp
  have cases: "e = k - 52 \<or> e = - 1074"
    by (auto simp: e_def max_def)
  have tiny: "(0::rat) \<le> 1 / 2 ^ 1075" and frac: "0 \<le> \<bar>x\<bar> / 2 ^ 53"
    by simp_all
  show ?thesis
  proof (cases "e = k - 52")
    case True
    have "(2::rat) powi k = 2 powi (k - 52) * 2 powi 52"
      using power_int_add [of "2::rat" "k - 52" 52] by simp
    then have "(2::rat) powi e / 2 = 2 powi k / 2 ^ 53"
      unfolding True by simp
    also have "\<dots> \<le> \<bar>x\<bar> / 2 ^ 53"
      using lowx by (intro divide_right_mono) auto
    finally have "\<bar>toDouble x - x\<bar> \<le> \<bar>x\<bar> / 2 ^ 53"
      using err by linarith
    then show ?thesis
      using tiny by linarith
  next
    case False
    then have e: "e = - 1074"
      using cases by simp
    have "(2::rat) powi (- 1074) = 1 / 2 ^ 1074"
      using power_int_minus_divide [of "2::rat" 1074] by simp
    then have "(2::rat) powi e / 2 = 1 / 2 ^ 1075"
      unfolding e by simp
    then have "\<bar>toDouble x - x\<bar> \<le> 1 / 2 ^ 1075"
      using err by linarith
    then show ?thesis
      using frac by linarith
  qed
qed

lemma toDouble_of_int:
  assumes "\<bar>n\<bar> < 2 ^ 53"
  shows "toDouble (of_int n) = of_int n"
proof (cases "n = 0")
  case True
  then show ?thesis by (simp add: toDouble_def)
next
  case False
  define x :: rat where "x = of_int n"
  define k where "k = ilog2 \<bar>x\<bar>"
  define e where "e = max (k - 52) (- 1074)"
  have x0: "x \<noteq> 0" "0 < \<bar>x\<bar>"
    using False by (simp_all add: x_def)
  have "2 powi k \<le> \<bar>x\<bar>"
    unfolding k_def using x0 by (intro ilog2_bounds(1))
  also have "\<bar>x\<bar> < 2 ^ 53"
  proof -
    have "(of_int \<bar>n\<bar> :: rat) < of_int (2 ^ 53)"
      using assms by (simp only: of_int_less_iff)
    then show ?thesis by (simp add: x_def)
  qed
  finally have "(2::rat) powi k < 2 powi 53"
    by simp
  then have "k < 53"
    by (rule pow2_less_cancel)
  then have e0: "e \<le> 0"
    by (simp add: e_def)
  have "(2::rat) powi e = 1 / 2 ^ nat (- e)"
    using e0 by (simp add: power_int_def inverse_eq_divide power_one_over)
  then have m: "x / 2 powi e = of_int (n * 2 ^ nat (- e))"
    by (simp add: x_def)
  have "toDouble x = of_int (roundHalfEven (x / 2 powi e)) * 2 powi e"
    using x0 by (simp add: toDouble_def Let_def k_def e_def)
  also have "\<dots> = (x / 2 powi e) * 2 powi e"
    unfolding m roundHalfEven_of_int ..
  also have "\<dots> = x"
    by simp
  finally show ?thesis
    by (simp add: x_def)
qed

lemma toDouble_eval:
  assumes "x \<noteq> 0" "2 powi k \<le> \<bar>x\<bar>" "\<bar>x\<bar> < 2 powi (k + 1)"
  shows "toDouble x = of_int (roundHalfEven (x / 2 powi (max (k - 52) (- 1074)))) * 2 powi (max (k - 52) (- 1074))"
proof -
  have "ilog2 \<bar>x\<bar> = k"
    using assms by (intro ilog2_unique) auto
  then show ?thesis
    using assms(1) by (simp add: toDouble_def Let_def)
qed

lemma roundHalfEven_near:
  assumes "\<bar>of_int r - m\<bar> < 1 / 2"
  shows "roundHalfEven m = r"
proof -
  have f: "of_int \<lfloor>m\<rfloor> \<le> m" "m < of_int \<lfloor>m\<rfloor> + 1"
    by linarith+
  have "r = \<lfloor>m\<rfloor> \<or> r = \<lfloor>m\<rfloor> + 1"
  proof -
    have "of_int r < m + 1 / 2" "m - 1 / 2 < of_int r"
      using assms by linarith+
    then have "(of_int r :: rat) < of_int (\<lfloor>m\<rfloor> + 2)" "(of_int (\<lfloor>m\<rfloor> - 1) :: rat) < of_int r"
      using f by simp_all linarith+
    then have "r < \<lfloor>m\<rfloor> + 2" "\<lfloor>m\<rfloor> - 1 < r"
      by (simp_all only: of_int_less_iff)
    then show ?thesis by linarith
  qed
  then show ?thesis
  proof
    assume r: "r = \<lfloor>m\<rfloor>"
    then have "m - of_int \<lfloor>m\<rfloor> < 1 / 2"
      using assms by linarith
    then show ?thesis
      by (simp add: roundHalfEven_def Let_def r)
  next
    assume r: "r = \<lfloor>m\<rfloor> + 1"
    have "(of_int r :: rat) = of_int \<lfloor>m\<rfloor> + 1"
      by (simp add: r)
    then have "1 / 2 < m - of_int \<lfloor>m\<rfloor>"
      using assms by linarith
    then show ?thesis
      by (simp add: roundHalfEven_def Let_def r)
  qed
qed

lemma roundHalfEven_tie:
  assumes "m = of_int f + 1 / 2"
  shows "roundHalfEven m = (if even f then f else f + 1)"
proof -
  have "\<lfloor>m\<rfloor> = f"
    unfolding assms by linarith
  then show ?thesis
    by (simp add: roundHalfEven_def Let_def assms)
qed

lemma toDouble_near:
  assumes "x \<noteq> 0" "2 powi k \<le> \<bar>x\<bar>" "\<bar>x\<bar> < 2 powi (k + 1)"
    and "\<bar>of_int r - x / 2 powi (max (k - 52) (- 1074))\<bar> < 1 / 2"
  shows "toDouble x = of_int r * 2 powi (max (k - 52) (- 1074))"
  using toDouble_eval [OF assms(1-3)] roundHalfEven_near [OF assms(4)] by simp

lemma toDouble_tie:
  assumes "x \<noteq> 0" "2 powi k \<le> \<bar>x\<bar>" "\<bar>x\<bar> < 2 powi (k + 1)"
    and "x / 2 powi (max (k - 52) (- 1074)) = of_int f + 1 / 2"
  shows "toDouble x = of_int (if even f then f else f + 1) * 2 powi (max (k - 52) (- 1074))"
  using toDouble_eval [OF assms(1-3)] roundHalfEven_tie [OF assms(4)] by simp





lemma toDouble_2_53_plus_1: "toDouble 9007199254740993 = 9007199254740992"
  using toDouble_tie [of "9007199254740993" "53" 4503599627370496] by simp

lemma toDouble_exact:
  assumes "x = of_int r * 2 powi e" "\<bar>r\<bar> < 2 ^ 53" "- 1074 \<le> e"
  shows "toDouble x = x"
proof (cases "x = 0")
  case True
  then show ?thesis by (simp add: toDouble_def)
next
  case False
  define k where "k = ilog2 \<bar>x\<bar>"
  define e' where "e' = max (k - 52) (- 1074)"
  have x0: "0 < \<bar>x\<bar>"
    using False by simp
  have r: "(of_int \<bar>r\<bar> :: rat) < 2 ^ 53"
  proof -
    have "(of_int \<bar>r\<bar> :: rat) < of_int (2 ^ 53)"
      using assms(2) by (simp only: of_int_less_iff)
    then show ?thesis by simp
  qed
  have "2 powi k \<le> \<bar>x\<bar>"
    unfolding k_def using x0 by (intro ilog2_bounds(1))
  also have "\<bar>x\<bar> = of_int \<bar>r\<bar> * 2 powi e"
    by (simp add: assms(1) abs_mult)
  also have "\<dots> < 2 ^ 53 * 2 powi e"
    using r by (intro mult_strict_right_mono) auto
  also have "\<dots> = 2 powi (53 + e)"
    using power_int_add [of "2::rat" 53 e] by simp
  finally have "k < 53 + e"
    by (rule pow2_less_cancel)
  then have le: "e' \<le> e"
    using assms(3) by (simp add: e'_def)
  have "(2::rat) powi e = 2 powi (e - e') * 2 powi e'"
    using power_int_add [of "2::rat" "e - e'" e'] by simp
  also have "(2::rat) powi (e - e') = 2 ^ nat (e - e')"
    using le by (simp add: power_int_nonneg_exp)
  finally have m: "x / 2 powi e' = of_int (r * 2 ^ nat (e - e'))"
    by (simp add: assms(1))
  have "toDouble x = of_int (roundHalfEven (x / 2 powi e')) * 2 powi e'"
    using False by (simp add: toDouble_def Let_def k_def e'_def)
  also have "\<dots> = (x / 2 powi e') * 2 powi e'"
    unfolding m roundHalfEven_of_int ..
  also have "\<dots> = x"
    by simp
  finally show ?thesis .
qed

lemma toDouble_idem: "toDouble (toDouble x) = toDouble x"
proof (cases "x = 0")
  case True
  then show ?thesis by (simp add: toDouble_def)
next
  case False
  define k where "k = ilog2 \<bar>x\<bar>"
  define e where "e = max (k - 52) (- 1074)"
  define m where "m = x / 2 powi e"
  define r where "r = roundHalfEven m"
  have t: "toDouble x = of_int r * 2 powi e"
    using False by (simp add: toDouble_def Let_def k_def e_def m_def r_def)
  have e: "- 1074 \<le> e" "k + 1 \<le> e + 53"
    by (simp_all add: e_def)
  have "\<bar>x\<bar> < 2 powi (k + 1)"
    unfolding k_def using False by (intro ilog2_bounds(2)) simp
  also have "\<dots> \<le> 2 powi (e + 53)"
    using e(2) by (intro power_int_increasing) auto
  also have "\<dots> = 2 powi e * 2 ^ 53"
    using power_int_add [of "2::rat" e 53] by simp
  finally have "\<bar>x\<bar> / 2 powi e < 2 ^ 53"
    by (simp add: pos_divide_less_eq mult.commute)
  then have m: "\<bar>m\<bar> < 2 ^ 53"
    by (simp add: m_def abs_divide)
  have "\<bar>of_int r - m\<bar> \<le> 1 / 2"
    unfolding r_def by (rule roundHalfEven_error)
  then have "\<bar>(of_int r :: rat)\<bar> < 2 ^ 53 + 1"
    using m by linarith
  then have "(of_int \<bar>r\<bar> :: rat) < of_int (2 ^ 53 + 1)"
    by simp
  then have "\<bar>r\<bar> < 2 ^ 53 + 1"
    by (simp only: of_int_less_iff)
  then consider "\<bar>r\<bar> < 2 ^ 53" | "r = 2 ^ 53" | "r = - (2 ^ 53)"
    by linarith
  then show ?thesis
  proof cases
    case 1
    show ?thesis
      using toDouble_exact [OF t 1 e(1)] .
  next
    case 2
    have "(2::rat) powi (e + 1) = 2 powi e * 2"
      using power_int_add [of "2::rat" e 1] by simp
    then have "toDouble x = of_int (2 ^ 52) * 2 powi (e + 1)"
      unfolding t 2 by simp
    then show ?thesis
      using e(1) by (intro toDouble_exact [of _ "2 ^ 52" "e + 1"]) auto
  next
    case 3
    have "(2::rat) powi (e + 1) = 2 powi e * 2"
      using power_int_add [of "2::rat" e 1] by simp
    then have "toDouble x = of_int (- (2 ^ 52)) * 2 powi (e + 1)"
      unfolding t 3 by simp
    then show ?thesis
      using e(1) by (intro toDouble_exact [of _ "- (2 ^ 52)" "e + 1"]) auto
  qed
qed



lemma natToNumber_exact:
  assumes "n < 2 ^ 53"
  shows "natToNumber n = enat n"
proof -
  have "int n < int (2 ^ 53)"
    using assms by (simp only: of_nat_less_iff)
  then have i: "\<bar>int n\<bar> < 2 ^ 53"
    by simp
  have "toDouble (of_int (int n)) = of_int (int n)"
    using toDouble_exact [of "of_int (int n)" "int n" 0] i by simp
  then have t: "toDouble (of_nat n) = of_nat n"
    by simp
  have "(of_int (int n) :: rat) < of_int (2 ^ 53)"
    using i by (simp only: of_int_less_iff)
  then have "(of_nat n :: rat) < 2 ^ 53"
    by simp
  also have "\<dots> < DBL_OVERFLOW"
    by (simp add: DBL_OVERFLOW_def)
  finally have "\<not> DBL_OVERFLOW \<le> of_nat n"
    by simp
  then show ?thesis
    by (simp add: natToNumber_def t)
qed

lemma plusOne_exact: "n + 1 < 2 ^ 53 \<Longrightarrow> plusOne (enat n) = enat (n + 1)"
  using natToNumber_exact [of "n + 1"] by (simp add: plusOne_def)

lemma roundNumber_finite: "\<bar>q\<bar> < DBL_OVERFLOW \<Longrightarrow> roundNumber q = Num (toDouble q)"
  by (auto simp: roundNumber_def)



lemma toDouble_ge:
  assumes "2 ^ 53 \<le> x"
  shows "2 ^ 53 \<le> toDouble x"
proof -
  define k where "k = ilog2 \<bar>x\<bar>"
  define e where "e = max (k - 52) (- 1074)"
  define m where "m = x / 2 powi e"
  have x0: "0 < x" "x \<noteq> 0" "\<bar>x\<bar> = x"
    using assms by (simp_all add: less_le_trans [of 0 "2 ^ 53" x])
  have lo: "2 powi k \<le> x" and hi: "x < 2 powi (k + 1)"
    using ilog2_bounds [of x] x0 by (simp_all add: k_def)
  have "(2::rat) powi 53 < 2 powi (k + 1)"
    using assms hi by simp
  then have k: "53 \<le> k"
    using pow2_less_cancel [of 53 "k + 1"] by simp
  then have e: "e = k - 52"
    by (simp add: e_def)
  have t: "toDouble x = of_int (roundHalfEven m) * 2 powi e"
    using x0 by (simp add: toDouble_def Let_def k_def e_def m_def)
  have split: "(2::rat) powi k = 2 ^ 52 * 2 powi e"
    using power_int_add [of "2::rat" 52 "k - 52"] by (simp add: e)
  have "2 ^ 52 * 2 powi e \<le> m * 2 powi e"
    using lo by (simp add: m_def split)
  then have "2 ^ 52 \<le> m"
    by simp
  moreover have "\<bar>of_int (roundHalfEven m) - m\<bar> \<le> 1 / 2"
    by (rule roundHalfEven_error)
  ultimately have "(2::rat) ^ 52 - 1 < of_int (roundHalfEven m)"
    by linarith
  then have "(of_int (2 ^ 52 - 1) :: rat) < of_int (roundHalfEven m)"
    by (simp only: of_int_diff of_int_power of_int_numeral of_int_1)
  then have "2 ^ 52 - 1 < roundHalfEven m"
    by (simp only: of_int_less_iff)
  then have "2 ^ 52 \<le> roundHalfEven m"
    by linarith
  then have "(of_int (2 ^ 52) :: rat) \<le> of_int (roundHalfEven m)"
    by (simp only: of_int_le_iff)
  then have "(2::rat) ^ 52 \<le> of_int (roundHalfEven m)"
    by simp
  then have "(2::rat) ^ 52 * 2 powi e \<le> of_int (roundHalfEven m) * 2 powi e"
    by (intro mult_right_mono) simp_all
  then have "2 powi k \<le> toDouble x"
    by (simp add: t split)
  moreover have "(2::rat) powi 53 \<le> 2 powi k"
    using k by (intro power_int_increasing) simp_all
  ultimately show ?thesis
    by simp
qed

lemma natToNumber_ge:
  assumes "2 ^ 53 \<le> n"
  shows "enat (2 ^ 53) \<le> natToNumber n"
proof (cases "DBL_OVERFLOW \<le> of_nat n")
  case True
  then show ?thesis by (simp add: natToNumber_def)
next
  case False
  have "(of_nat (2 ^ 53) :: rat) \<le> of_nat n"
    using assms by (simp only: of_nat_le_iff)
  then have "2 ^ 53 \<le> toDouble (of_nat n)"
    by (intro toDouble_ge) simp
  then have "(of_int (int (2 ^ 53)) :: rat) \<le> toDouble (of_nat n)"
    by simp
  then have "int (2 ^ 53) \<le> \<lfloor>toDouble (of_nat n)\<rfloor>"
    by (simp only: le_floor_iff)
  then have "nat (int (2 ^ 53)) \<le> nat \<lfloor>toDouble (of_nat n)\<rfloor>"
    by (rule nat_mono)
  then have "2 ^ 53 \<le> nat \<lfloor>toDouble (of_nat n)\<rfloor>"
    by (simp only: nat_int)
  then show ?thesis
    using False by (simp add: natToNumber_def)
qed

lemma plusOne_natToNumber_ge:
  assumes "2 ^ 53 \<le> n + 1"
  shows "enat (2 ^ 53) \<le> plusOne (natToNumber n)"
proof (cases "2 ^ 53 \<le> n")
  case True
  show ?thesis
  proof (cases "natToNumber n")
    case (enat m)
    then have "2 ^ 53 \<le> m"
      using natToNumber_ge [OF True] by simp
    then have "enat (2 ^ 53) \<le> natToNumber (m + 1)"
      by (intro natToNumber_ge) simp
    then show ?thesis
      by (simp add: enat plusOne_def)
  next
    case infinity
    then show ?thesis by (simp add: plusOne_def)
  qed
next
  case False
  then have "natToNumber n = enat n"
    by (intro natToNumber_exact) simp
  then show ?thesis
    using natToNumber_ge [OF assms] by (simp add: plusOne_def)
qed

lemma plusOne_natToNumber_in_range:
  assumes "plusOne (natToNumber n) < enat N" "N \<le> 2 ^ 53"
  shows "plusOne (natToNumber n) = enat (n + 1)"
proof (cases "2 ^ 53 \<le> n + 1")
  case True
  have "enat N \<le> enat (2 ^ 53)"
    using assms(2) by simp
  with plusOne_natToNumber_ge [OF True] assms(1) show ?thesis
    by (meson order.strict_trans1 order.trans less_irrefl)
next
  case False
  then have "natToNumber n = enat n"
    by (intro natToNumber_exact) simp
  then show ?thesis
    using False plusOne_exact [of n] by simp
qed

lemma jsadd_Num:
  "\<bar>toDouble a + toDouble b\<bar> < DBL_OVERFLOW \<Longrightarrow>
   jsadd (Num a) (Num b) = Num (toDouble (toDouble a + toDouble b))"
  by (simp add: roundNumber_finite)

lemma jsadd_zero:
  assumes "\<bar>q\<bar> < 2 ^ 1023"
  shows "jsadd (Num 0) (Num q) = Num (toDouble q)"
proof -
  have "\<bar>toDouble q\<bar> \<le> \<bar>q\<bar> + \<bar>q\<bar> / 2 ^ 53 + 1 / 2 ^ 1075"
    using toDouble_error [of q] by linarith
  also have "\<dots> < 2 ^ 1023 + 2 ^ 1023 / 2 ^ 53 + 1 / 2 ^ 1075"
    using assms by (intro add_strict_right_mono add_strict_mono divide_strict_right_mono) simp_all
  also have "\<dots> < DBL_OVERFLOW"
    by (simp add: DBL_OVERFLOW_def)
  finally show ?thesis
    by (simp add: roundNumber_finite toDouble_zero toDouble_idem)
qed

lemma powi_neg_42: "(2::rat) powi (- 42) = 1 / 2 ^ 42"
  by (simp add: power_int_minus_divide)

lemma toDouble_1234_56: "toDouble (123456 / 100) = 2714826150374277 / 2 ^ 41"
  using toDouble_near [of "123456 / 100" 10 5429652300748554] by (simp add: powi_neg_42)

lemma toDouble_1244_56: "toDouble (124456 / 100) = 2736816382929797 / 2 ^ 41"
  using toDouble_near [of "124456 / 100" 10 5473632765859594] by (simp add: powi_neg_42)

lemma toDouble_10: "toDouble 10 = 10"
  using toDouble_of_int [of 10] by simp

lemma jsadd_1234_56_10: "jsadd (Num (toDouble (123456 / 100))) (Num 10) = Num (toDouble (124456 / 100))"
proof -
  have e: "toDouble (2736816382929797 / 2 ^ 41) = 2736816382929797 / 2 ^ 41"
    using toDouble_exact [of "2736816382929797 / 2 ^ 41" 2736816382929797 "- 41"]
    by (simp add: power_int_minus_divide)
  have s: "toDouble (toDouble (123456 / 100)) + toDouble 10 = 2736816382929797 / 2 ^ 41"
    by (simp only: toDouble_idem) (simp add: toDouble_10 toDouble_1234_56 [simplified])
  have "\<bar>toDouble (toDouble (123456 / 100)) + toDouble 10\<bar> < DBL_OVERFLOW"
    unfolding s by (simp add: DBL_OVERFLOW_def)
  then have "jsadd (Num (toDouble (123456 / 100))) (Num 10)
      = Num (toDouble (toDouble (toDouble (123456 / 100)) + toDouble 10))"
    by (rule jsadd_Num)
  then show ?thesis
    unfolding s e toDouble_1244_56 .
qed



lemma jsadd_1234_56_10_normal:
  "jsadd (Num (toDouble (30864 / 25))) (Num 10) = Num (toDouble (31114 / 25))"
  using jsadd_1234_56_10 by (simp del: jsadd.simps(1))


section \<open>Properties of the amount parser\<close>

lemmas amount_eval = parseAmount_txt_def parseAmount_def String_def stripAmount_def cleanAmount_def
  orElse_def parseFloat_def strSign_def strMantissa_def collapseDots_def resolveSeparators_def removeDots_def commaToDot_def
  keepAmountChar_def isDigit_def isSpace_def digitsValue_def toNumber_def DBL_OVERFLOW_def
  scale10_def exponentPart_def Let_def

lemma set_resolveSeparators: "set (resolveSeparators s) \<subseteq> insert (CHR ''.'') (set s)"
  by (auto simp: resolveSeparators_def commaToDot_def removeDots_def)

lemma split_not_Nil: "split sep s \<noteq> []"
  by (induction s) (auto split: list.splits)

lemma concat_split: "concat (split sep s) = filter (\<lambda>c. c \<noteq> sep) s"
  by (induction s) (auto split: list.splits simp: split_not_Nil)

lemma concat_butlast_last: "ps \<noteq> [] \<Longrightarrow> concat (butlast ps) @ last ps = concat ps"
  by (induction ps) auto

lemma filter_collapseDots:
  assumes "\<not> P (CHR ''.'')"
  shows "filter P (collapseDots s) = filter P s"
proof -
  let ?ps = "split (CHR ''.'') s"
  have "filter P (concat (butlast ?ps) @ ''.'' @ last ?ps) = filter P (concat (butlast ?ps) @ last ?ps)"
    using assms by simp
  also have "\<dots> = filter P (filter (\<lambda>c. c \<noteq> CHR ''.'') s)"
    by (simp only: concat_butlast_last [OF split_not_Nil] concat_split)
  also have "\<dots> = filter P s"
    using assms by (induction s) auto
  finally show ?thesis
    by (simp add: collapseDots_def Let_def)
qed

lemma set_collapseDots: "set (collapseDots s) \<subseteq> insert (CHR ''.'') (set s)"
proof -
  let ?ps = "split (CHR ''.'') s"
  have "set (concat (butlast ?ps) @ last ?ps) \<subseteq> set s"
    by (simp only: concat_butlast_last [OF split_not_Nil] concat_split) auto
  then show ?thesis
    by (auto simp: collapseDots_def Let_def)
qed

lemma set_cleanAmount: "c \<in> set (cleanAmount raw) \<Longrightarrow> keepAmountChar c"
  using set_collapseDots [of "resolveSeparators (filter keepAmountChar raw)"]
    set_resolveSeparators [of "filter keepAmountChar raw"]
  by (auto simp: cleanAmount_def keepAmountChar_def)

lemma takeWhile_none: "\<forall>c\<in>set xs. \<not> P c \<Longrightarrow> takeWhile P xs = []"
  by (cases xs) auto

lemma set_tl_subset: "set (tl xs) \<subseteq> set xs"
  by (cases xs) auto

lemma set_strSign: "strSign s = (neg, body) \<Longrightarrow> set body \<subseteq> set s"
  by (auto simp: strSign_def split: list.splits if_splits)

lemma strSign_neg: "strSign s = (True, body) \<Longrightarrow> CHR ''-'' \<in> set s"
  by (auto simp: strSign_def split: list.splits if_splits)

lemma length_filter_strSign:
  "strSign s = (neg, body) \<Longrightarrow> length (filter P body) \<le> length (filter P s)"
  by (auto simp: strSign_def split: list.splits if_splits)

lemma not_keep_I: "\<not> keepAmountChar (CHR ''I'')"
  by (simp add: keepAmountChar_def isDigit_def)

lemma prefix_Infinity_I: "prefix ''Infinity'' body \<Longrightarrow> CHR ''I'' \<in> set body"
  by (auto simp: prefix_def)

lemma strMantissa_no_digit: "\<forall>c\<in>set body. \<not> isDigit c \<Longrightarrow> strMantissa body = None"
proof -
  assume nodig: "\<forall>c\<in>set body. \<not> isDigit c"
  have i: "takeWhile isDigit body = []"
    using nodig by (rule takeWhile_none)
  have "\<forall>c\<in>set (tl (dropWhile isDigit body)). \<not> isDigit c"
    using nodig set_tl_subset [of "dropWhile isDigit body"] by (auto dest: set_dropWhileD)
  then have f: "takeWhile isDigit (tl (dropWhile isDigit body)) = []"
    by (rule takeWhile_none)
  show ?thesis
    by (simp add: strMantissa_def Let_def i f)
qed

lemma parseFloat_no_digit:
  assumes keep: "\<forall>c\<in>set t. keepAmountChar c" and nodig: "\<forall>c\<in>set t. \<not> isDigit c"
  shows "parseFloat t = NaN"
proof -
  obtain neg body where sg: "strSign (dropWhile isSpace t) = (neg, body)"
    by (cases "strSign (dropWhile isSpace t)")
  have sb: "set body \<subseteq> set t"
    using set_strSign [OF sg] by (auto dest: set_dropWhileD)
  have inf: "\<not> prefix ''Infinity'' body"
    using prefix_Infinity_I [of body] sb keep not_keep_I by auto
  have "strMantissa body = None"
    using sb nodig by (intro strMantissa_no_digit) auto
  then show ?thesis
    by (simp add: parseFloat_def sg inf)
qed

lemma DBL_OVERFLOW_pos: "0 < DBL_OVERFLOW"
  by (simp add: DBL_OVERFLOW_def)

lemma toNumber_nonneg: "0 \<le> q \<Longrightarrow> nonNegative (toNumber q)"
  using DBL_OVERFLOW_pos by (auto simp: toNumber_def nonNegative_def)

lemma scale10_nonneg: "0 \<le> q \<Longrightarrow> 0 \<le> scale10 q e"
  by (simp add: scale10_def)

lemma strMantissa_nonneg: "strMantissa body = Some (m, rest) \<Longrightarrow> 0 \<le> m"
  by (auto simp: strMantissa_def Let_def split: if_splits)

lemma parseFloat_nonneg:
  assumes nominus: "CHR ''-'' \<notin> set t"
  shows "parseFloat t = NaN \<or> nonNegative (parseFloat t)"
proof -
  obtain neg body where sg: "strSign (dropWhile isSpace t) = (neg, body)"
    by (cases "strSign (dropWhile isSpace t)")
  have neg: "\<not> neg"
    using strSign_neg [of "dropWhile isSpace t" body] sg nominus by (auto dest: set_dropWhileD)
  show ?thesis
  proof (cases "prefix ''Infinity'' body")
    case True
    then show ?thesis by (simp add: parseFloat_def sg neg nonNegative_def)
  next
    case False
    show ?thesis
    proof (cases "strMantissa body")
      case None
      then show ?thesis by (simp add: parseFloat_def sg False)
    next
      case (Some mr)
      obtain m rest where mr: "mr = (m, rest)" by (cases mr)
      have "0 \<le> scale10 m (exponentPart rest)"
        using strMantissa_nonneg Some mr by (intro scale10_nonneg) auto
      then have "nonNegative (toNumber (scale10 m (exponentPart rest)))"
        by (rule toNumber_nonneg)
      then show ?thesis
        by (simp add: parseFloat_def sg False Some mr neg Let_def)
    qed
  qed
qed

lemma digitsValue_bound_aux:
  "\<forall>c\<in>set ds. isDigit c \<Longrightarrow>
   foldl (\<lambda>a c. 10 * a + ((of_char c :: nat) - 48)) a ds + 1 \<le> (a + 1) * 10 ^ length ds"
proof (induction ds arbitrary: a)
  case Nil
  then show ?case by simp
next
  case (Cons d ds)
  let ?a = "10 * a + ((of_char d :: nat) - 48)"
  have "(of_char d :: nat) \<le> 57"
    using Cons.prems by (simp add: isDigit_def)
  then have d: "?a + 1 \<le> 10 * (a + 1)"
    by arith
  have "foldl (\<lambda>a c. 10 * a + ((of_char c :: nat) - 48)) ?a ds + 1 \<le> (?a + 1) * 10 ^ length ds"
    using Cons.prems by (intro Cons.IH) simp
  also have "\<dots> \<le> (10 * (a + 1)) * 10 ^ length ds"
    using d by (rule mult_le_mono1)
  finally show ?case by (simp add: algebra_simps)
qed

lemma digitsValue_bound: "\<forall>c\<in>set ds. isDigit c \<Longrightarrow> digitsValue ds < 10 ^ length ds"
  using digitsValue_bound_aux [of ds 0] by (simp add: digitsValue_def)

lemma digitsValue_zeros:
  "foldl (\<lambda>a c. 10 * a + ((of_char c :: nat) - 48)) a (replicate n (CHR ''0'')) = a * 10 ^ n"
  by (induction n arbitrary: a) simp_all

lemma digitsValue_one_zeros: "digitsValue (CHR ''1'' # replicate n (CHR ''0'')) = 10 ^ n"
  by (simp add: digitsValue_def digitsValue_zeros)

lemma length_takeWhile_filter: "length (takeWhile P xs) \<le> length (filter P xs)"
  by (induction xs) auto

lemma length_filter_dropWhile: "length (filter P (dropWhile Q xs)) \<le> length (filter P xs)"
  by (induction xs) auto

lemma exponentPart_keep: "(r \<noteq> [] \<Longrightarrow> keepAmountChar (hd r)) \<Longrightarrow> exponentPart r = 0"
  by (cases r) (auto simp: exponentPart_def keepAmountChar_def isDigit_def)

lemma pow308: "(10::rat) ^ 308 < DBL_OVERFLOW"
  by (simp add: DBL_OVERFLOW_def)

lemma toNumber_finite: "\<bar>q\<bar> < DBL_OVERFLOW \<Longrightarrow> toNumber q = Num q"
  by (auto simp: toNumber_def)


lemma takeWhile_all: "\<forall>c\<in>set (takeWhile P xs). P c"
  by (auto dest: set_takeWhileD)

lemma strMantissa_bound:
  assumes "strMantissa body = Some (m, rest)"
  shows "m < 10 ^ length (filter isDigit body)"
proof -
  define i where "i = takeWhile isDigit body"
  define f where "f = (if dropWhile isDigit body \<noteq> [] \<and> hd (dropWhile isDigit body) = CHR ''.''
                       then takeWhile isDigit (tl (dropWhile isDigit body)) else [])"
  have m: "m = of_nat (digitsValue i) + of_nat (digitsValue f) / 10 ^ length f"
    using assms by (auto simp: strMantissa_def Let_def i_def f_def split: if_splits)
  have "\<forall>c\<in>set i. isDigit c"
    unfolding i_def by (rule takeWhile_all)
  then have "digitsValue i + 1 \<le> 10 ^ length i"
    using digitsValue_bound [of i] by simp
  then have "(of_nat (digitsValue i + 1) :: rat) \<le> of_nat (10 ^ length i)"
    by (simp only: of_nat_le_iff)
  then have bi: "(of_nat (digitsValue i) :: rat) + 1 \<le> 10 ^ length i"
    by simp
  have "\<forall>c\<in>set f. isDigit c"
    unfolding f_def using takeWhile_all [of isDigit] by auto
  then have "digitsValue f < 10 ^ length f"
    by (rule digitsValue_bound)
  then have "(of_nat (digitsValue f) :: rat) < of_nat (10 ^ length f)"
    by (simp only: of_nat_less_iff)
  then have bf: "(of_nat (digitsValue f) :: rat) / 10 ^ length f < 1"
    by simp
  have "length i \<le> length (filter isDigit body)"
    unfolding i_def by (rule length_takeWhile_filter)
  then have "(10::rat) ^ length i \<le> 10 ^ length (filter isDigit body)"
    by (intro power_increasing) auto
  with bi bf m show ?thesis
    by linarith
qed

lemma strMantissa_rest: "strMantissa body = Some (m, rest) \<Longrightarrow> set rest \<subseteq> set body"
  using set_tl_subset [of "dropWhile isDigit body"]
  by (auto simp: strMantissa_def Let_def split: if_splits dest!: set_dropWhileD)

lemma parseFloat_finite:
  assumes keep: "\<forall>c\<in>set t. keepAmountChar c" and len: "length (filter isDigit t) \<le> 308"
  shows "parseFloat t = NaN \<or> isFinite (parseFloat t)"
proof -
  obtain neg body where sg: "strSign (dropWhile isSpace t) = (neg, body)"
    by (cases "strSign (dropWhile isSpace t)")
  have sb: "set body \<subseteq> set t"
    using set_strSign [OF sg] by (auto dest: set_dropWhileD)
  have inf: "\<not> prefix ''Infinity'' body"
    using prefix_Infinity_I [of body] sb keep not_keep_I by auto
  have lb: "length (filter isDigit body) \<le> 308"
    using length_filter_strSign [OF sg, of isDigit] length_filter_dropWhile [of isDigit isSpace t] len
    by linarith
  show ?thesis
  proof (cases "strMantissa body")
    case None
    then show ?thesis by (simp add: parseFloat_def sg inf)
  next
    case (Some mr)
    obtain m rest where mr: "mr = (m, rest)" by (cases mr)
    have sm: "strMantissa body = Some (m, rest)"
      using Some mr by simp
    have "rest \<noteq> [] \<Longrightarrow> keepAmountChar (hd rest)"
      using strMantissa_rest [OF sm] sb keep by (cases rest) auto
    then have e: "exponentPart rest = 0"
      by (rule exponentPart_keep)
    have m0: "0 \<le> m"
      using sm by (rule strMantissa_nonneg)
    have "m < 10 ^ length (filter isDigit body)"
      using sm by (rule strMantissa_bound)
    also have "\<dots> \<le> (10::rat) ^ 308"
      using lb by (intro power_increasing) auto
    also have "\<dots> < DBL_OVERFLOW"
      by (rule pow308)
    finally have "\<bar>m\<bar> < DBL_OVERFLOW" "\<bar>- m\<bar> < DBL_OVERFLOW"
      using m0 by auto
    then have "toNumber m = Num m" "toNumber (- m) = Num (- m)"
      by (auto intro: toNumber_finite)
    then show ?thesis
      by (simp add: parseFloat_def sg inf sm e scale10_def isFinite_def)
  qed
qed

lemma filter_isDigit_cleanAmount: "filter isDigit (cleanAmount raw) = filter isDigit raw"
proof -
  have d: "\<not> isDigit (CHR ''.'')" "\<not> isDigit (CHR '','')"
    by (simp_all add: isDigit_def)
  have c: "filter isDigit (commaToDot s) = filter isDigit s" for s
    using d by (induction s) (auto simp: commaToDot_def)
  have x: "filter isDigit (removeDots s) = filter isDigit s" for s
    using d by (induction s) (auto simp: removeDots_def)
  have r: "filter isDigit (resolveSeparators s) = filter isDigit s" for s
    by (simp add: resolveSeparators_def c x)
  have k: "filter isDigit (filter keepAmountChar raw) = filter isDigit raw"
    by (induction raw) (auto simp: keepAmountChar_def)
  show ?thesis
    by (simp only: cleanAmount_def filter_collapseDots [of isDigit, OF d(1)] r k)
qed

lemma stripAmount_not_NaN: "stripAmount s \<noteq> NaN"
  by (simp add: stripAmount_def orElse_def)

lemma stripAmount_no_digit: "\<forall>c\<in>set s. \<not> isDigit c \<Longrightarrow> stripAmount s = Num 0"
proof -
  assume nodig: "\<forall>c\<in>set s. \<not> isDigit c"
  have "filter isDigit (cleanAmount s) = []"
    using nodig by (simp add: filter_isDigit_cleanAmount)
  then have "\<forall>c\<in>set (cleanAmount s). \<not> isDigit c"
    by (simp add: filter_empty_conv)
  then have "parseFloat (cleanAmount s) = NaN"
    using set_cleanAmount [of _ s] by (intro parseFloat_no_digit) auto
  then show ?thesis
    by (simp add: stripAmount_def orElse_def)
qed

lemma stripAmount_nonneg: "CHR ''-'' \<notin> set s \<Longrightarrow> nonNegative (stripAmount s)"
proof -
  assume nominus: "CHR ''-'' \<notin> set s"
  have "CHR ''-'' \<notin> set (cleanAmount s)"
    using nominus set_collapseDots [of "resolveSeparators (filter keepAmountChar s)"]
      set_resolveSeparators [of "filter keepAmountChar s"]
    by (auto simp: cleanAmount_def)
  then have "parseFloat (cleanAmount s) = NaN \<or> nonNegative (parseFloat (cleanAmount s))"
    by (rule parseFloat_nonneg)
  then show ?thesis
    by (auto simp: stripAmount_def orElse_def nonNegative_def)
qed

lemma stripAmount_finite: "length (filter isDigit s) \<le> 308 \<Longrightarrow> isFinite (stripAmount s)"
proof -
  assume len: "length (filter isDigit s) \<le> 308"
  have "parseFloat (cleanAmount s) = NaN \<or> isFinite (parseFloat (cleanAmount s))"
    using len set_cleanAmount [of _ s]
    by (intro parseFloat_finite) (auto simp: filter_isDigit_cleanAmount)
  then show ?thesis
    by (auto simp: stripAmount_def orElse_def isFinite_def)
qed

text \<open>
  C1 (amended). The worked examples of the amount parser, on both copies of it: \<open>"1.234,56"\<close>
  and \<open>"1234,56"\<close> give 1234.56, the empty string and \<open>"abc"\<close> give 0, and \<open>"1,234.56"\<close>
  gives 1.23456, because with both separators present every dot is dropped and the comma is
  the decimal point. That rule holds for every input with both separators.
\<close>

theorem C1_parse_examples_amended:
  "parseAmount_txt ''1.234,56'' = Num (123456 / 100)
   \<and> parseAmount_txt ''1,234.56'' = Num (123456 / 100000)
   \<and> parseAmount_txt ''1234,56'' = Num (123456 / 100)
   \<and> parseAmount_txt '''' = Num 0
   \<and> parseAmount_txt ''abc'' = Num 0
   \<and> parseAmount (Str ''1.234,56'') = Num (123456 / 100)
   \<and> parseAmount (Str ''1,234.56'') = Num (123456 / 100000)
   \<and> parseAmount (Str ''1234,56'') = Num (123456 / 100)
   \<and> parseAmount (Str '''') = Num 0
   \<and> parseAmount (Str ''abc'') = Num 0
   \<and> (CHR ''.'' \<in> set raw \<and> CHR '','' \<in> set raw \<longrightarrow>
        cleanAmount raw = collapseDots (commaToDot (removeDots (filter keepAmountChar raw)))
        \<and> parseAmount_txt raw
            = orElse (parseFloat (collapseDots (commaToDot (removeDots (filter keepAmountChar raw))))) (Num 0)
        \<and> parseAmount (Str raw) = parseAmount_txt raw)"
proof -
  have e1: "parseAmount_txt ''1.234,56'' = Num (123456 / 100)"
    by (simp add: amount_eval)
  have e2: "parseAmount_txt ''1,234.56'' = Num (123456 / 100000)"
    by (simp add: amount_eval)
  have e3: "parseAmount_txt ''1234,56'' = Num (123456 / 100)"
    by (simp add: amount_eval)
  have e4: "parseAmount_txt '''' = Num 0"
    by (simp add: parseAmount_txt_def)
  have e5: "parseAmount_txt ''abc'' = Num 0"
    by (simp add: amount_eval)
  have c1: "parseAmount (Str ''1.234,56'') = Num (123456 / 100)"
    by (simp add: amount_eval)
  have c2: "parseAmount (Str ''1,234.56'') = Num (123456 / 100000)"
    by (simp add: amount_eval)
  have c3: "parseAmount (Str ''1234,56'') = Num (123456 / 100)"
    by (simp add: amount_eval)
  have c4: "parseAmount (Str '''') = Num 0"
    by (simp add: amount_eval)
  have c5: "parseAmount (Str ''abc'') = Num 0"
    by (simp add: amount_eval)
  have rule: "cleanAmount raw = collapseDots (commaToDot (removeDots (filter keepAmountChar raw)))
        \<and> parseAmount_txt raw
            = orElse (parseFloat (collapseDots (commaToDot (removeDots (filter keepAmountChar raw))))) (Num 0)
        \<and> parseAmount (Str raw) = parseAmount_txt raw"
    if both: "CHR ''.'' \<in> set raw \<and> CHR '','' \<in> set raw"
  proof -
    have k: "CHR ''.'' \<in> set (filter keepAmountChar raw)" "CHR '','' \<in> set (filter keepAmountChar raw)"
      using both by (simp_all add: keepAmountChar_def)
    then have "cleanAmount raw = collapseDots (commaToDot (removeDots (filter keepAmountChar raw)))"
      by (simp only: cleanAmount_def resolveSeparators_def if_True simp_thms)
    moreover have "raw \<noteq> []"
      using both by auto
    ultimately show ?thesis
      by (simp add: parseAmount_txt_def parseAmount_def String_def stripAmount_def)
  qed
  from e1 e2 e3 e4 e5 c1 c2 c3 c4 c5 rule show ?thesis
    by blast
qed

theorem C1_parse_examples_witness:
  "CHR ''.'' \<in> set ''1.234,56'' \<and> CHR '','' \<in> set ''1.234,56''
   \<and> cleanAmount ''1.234,56'' = ''1234.56''
   \<and> parseAmount_txt ''1.234,56'' = Num (123456 / 100)"
proof -
  have h: "CHR ''.'' \<in> set ''1.234,56'' \<and> CHR '','' \<in> set ''1.234,56''"
    by simp
  have "cleanAmount ''1.234,56'' = collapseDots (commaToDot (removeDots (filter keepAmountChar ''1.234,56'')))"
    using C1_parse_examples_amended [of "''1.234,56''"] h by blast
  also have "\<dots> = ''1234.56''"
    by (simp add: amount_eval)
  finally have c: "cleanAmount ''1.234,56'' = ''1234.56''" .
  have "parseAmount_txt ''1.234,56'' = Num (123456 / 100)"
    using C1_parse_examples_amended [of "''1.234,56''"] by blast
  with h c show ?thesis
    by blast
qed

theorem C1_us_format_counterexample:
  "parseAmount_txt ''1,234.56'' \<noteq> Num (123456 / 100)
   \<and> parseAmount (Str ''1,234.56'') \<noteq> Num (123456 / 100)"
  by (simp add: amount_eval)

text \<open>
  C3 (amended). The amount parser is total and never gives NaN: absent input gives 0, an
  input without a digit gives 0, an input without a minus sign gives a non-negative number,
  and an input with at most 308 digits gives a finite number. (A leading minus sign gives a
  negative amount, and a longer run of digits can overflow to Infinity.)
\<close>

theorem C3_parseAmount_total_amended:
  "parseAmount_txt raw \<noteq> NaN
   \<and> parseAmount cell \<noteq> NaN
   \<and> parseAmount Null = Num 0
   \<and> parseAmount Undefined = Num 0
   \<and> ((\<forall>c\<in>set raw. \<not> isDigit c) \<longrightarrow> parseAmount_txt raw = Num 0 \<and> parseAmount (Str raw) = Num 0)
   \<and> (CHR ''-'' \<notin> set raw \<longrightarrow> nonNegative (parseAmount_txt raw) \<and> nonNegative (parseAmount (Str raw)))
   \<and> (length (filter isDigit raw) \<le> 308 \<longrightarrow>
        isFinite (parseAmount_txt raw) \<and> isFinite (parseAmount (Str raw)))"
proof -
  have n1: "parseAmount_txt raw \<noteq> NaN"
    by (simp add: parseAmount_txt_def stripAmount_not_NaN)
  have n2: "parseAmount cell \<noteq> NaN"
    by (simp add: parseAmount_def stripAmount_not_NaN)
  have a: "parseAmount Null = Num 0" "parseAmount Undefined = Num 0"
    by (simp_all add: parseAmount_def)
  have s: "parseAmount (Str raw) = stripAmount raw"
    by (simp add: parseAmount_def String_def)
  have z: "parseAmount_txt raw = Num 0 \<and> parseAmount (Str raw) = Num 0"
    if "\<forall>c\<in>set raw. \<not> isDigit c"
    using stripAmount_no_digit [OF that] by (simp add: parseAmount_txt_def s)
  have p: "nonNegative (parseAmount_txt raw) \<and> nonNegative (parseAmount (Str raw))"
    if "CHR ''-'' \<notin> set raw"
    using stripAmount_nonneg [OF that] by (simp add: parseAmount_txt_def s nonNegative_def)
  have f: "isFinite (parseAmount_txt raw) \<and> isFinite (parseAmount (Str raw))"
    if "length (filter isDigit raw) \<le> 308"
    using stripAmount_finite [OF that] by (simp add: parseAmount_txt_def s isFinite_def)
  from n1 n2 a z p f show ?thesis
    by blast
qed

theorem C3_parseAmount_total_witness:
  "filter isDigit ''abc'' = [] \<and> parseAmount_txt ''abc'' = Num 0
   \<and> CHR ''-'' \<notin> set ''1.234,56'' \<and> nonNegative (parseAmount_txt ''1.234,56'')
   \<and> length (filter isDigit ''1.234,56'') \<le> 308 \<and> isFinite (parseAmount (Str ''1.234,56''))"
proof -
  have h1: "\<forall>c\<in>set ''abc''. \<not> isDigit c"
    by (simp add: isDigit_def)
  have h2: "CHR ''-'' \<notin> set ''1.234,56''"
    by simp
  have h3: "length (filter isDigit ''1.234,56'') \<le> 308"
    by (simp add: isDigit_def)
  have "parseAmount_txt ''abc'' = Num 0"
    using C3_parseAmount_total_amended [of "''abc''"] h1 by blast
  moreover have "nonNegative (parseAmount_txt ''1.234,56'')"
    using C3_parseAmount_total_amended [of "''1.234,56''"] h2 by blast
  moreover have "isFinite (parseAmount (Str ''1.234,56''))"
    using C3_parseAmount_total_amended [of "''1.234,56''"] h3 by blast
  moreover have "filter isDigit ''abc'' = []"
    by (simp add: isDigit_def)
  ultimately show ?thesis
    using h2 h3 by blast
qed

theorem C3_negative_amount_counterexample:
  "parseAmount_txt ''-5'' = Num (- 5) \<and> \<not> nonNegative (parseAmount_txt ''-5'')
   \<and> parseAmount (Str ''-5'') = Num (- 5)"
  by (simp add: amount_eval nonNegative_def)

section \<open>Properties of the fixed-field extractor\<close>

lemmas slice_eval = sliceFixed_def slice_def trim_def isSpace_def Let_def

lemma dropWhile_fixed: "xs = [] \<or> \<not> P (hd xs) \<Longrightarrow> dropWhile P xs = xs"
  by (cases xs) auto

lemma last_dropWhile: "dropWhile P xs \<noteq> [] \<Longrightarrow> last (dropWhile P xs) = last xs"
  by (induction xs) (auto split: if_splits)

lemma trim_idem: "trim (trim s) = trim s"
proof -
  define t where "t = dropWhile isSpace s"
  define u where "u = dropWhile isSpace (rev t)"
  have tu: "trim s = rev u"
    by (simp add: trim_def t_def u_def)
  have u_fixed: "dropWhile isSpace u = u"
    unfolding u_def by (rule dropWhile_idem)
  have "dropWhile isSpace (rev u) = rev u"
  proof (cases "u = []")
    case True
    then show ?thesis by simp
  next
    case False
    then have "last u = last (rev t)"
      unfolding u_def by (rule last_dropWhile)
    moreover have "t \<noteq> []"
      using False by (auto simp: u_def)
    ultimately have "last u = hd t"
      by (simp add: last_rev)
    moreover have "\<not> isSpace (hd t)"
      using \<open>t \<noteq> []\<close> unfolding t_def by (rule hd_dropWhile)
    ultimately have "\<not> isSpace (hd (rev u))"
      using False by (simp add: hd_rev)
    then show ?thesis
      by (intro dropWhile_fixed) simp
  qed
  then show ?thesis
    by (simp add: tu trim_def [of "rev u"] u_fixed)
qed

lemma trim_Nil: "trim [] = []"
  by (simp add: trim_def)

lemma slice_nonneg:
  assumes "0 \<le> i" "i < int (length s)" "0 \<le> e"
  shows "slice s i e = take (nat (min e (int (length s))) - nat i) (drop (nat i) s)"
proof -
  have "nat (min e (int (length s)) - i) = nat (min e (int (length s))) - nat i"
    using assms by (simp add: nat_diff_distrib')
  then show ?thesis
    using assms by (simp add: slice_def Let_def min_def)
qed

lemma slice_negative:
  assumes "0 \<le> i" "i < int (length s)" "e < 0"
  shows "slice s i e = take (nat (int (length s) + e) - nat i) (drop (nat i) s)"
proof -
  have "nat (max (int (length s) + e) 0 - i) = nat (int (length s) + e) - nat i"
    using assms by (simp add: nat_diff_distrib' max_def)
  then show ?thesis
    using assms by (simp add: slice_def Let_def min_def)
qed

text \<open>
  C9. The fixed-field extractor returns a trimmed string for every line and every pair of
  columns: \<open>extract("", 1, 5) = ""\<close>, \<open>extract("AB", 1, 10) = "AB"\<close>, a line of fewer than
  200 characters gives \<open>""\<close> for columns 200 to 210, and when the offset
  \<open>max 0 (startCol - 1)\<close> is inside the line the result is the text from that offset up
  to column \<open>endCol\<close>, clipped to the length of the line, and trimmed. Columns are counted
  from 1; for a negative \<open>endCol\<close>, which no caller passes, the end is counted back from
  the end of the line.
\<close>

theorem C9_sliceFixed_total_trims:
  "sliceFixed '''' 1 5 = ''''
   \<and> sliceFixed ''AB'' 1 10 = ''AB''
   \<and> (length line < 200 \<longrightarrow> sliceFixed line 200 210 = '''')
   \<and> trim (sliceFixed line startCol endCol) = sliceFixed line startCol endCol
   \<and> (int (length line) \<le> max 0 (startCol - 1) \<longrightarrow> sliceFixed line startCol endCol = '''')
   \<and> (max 0 (startCol - 1) < int (length line) \<and> 0 \<le> endCol \<longrightarrow>
        sliceFixed line startCol endCol
          = trim (take (nat (min endCol (int (length line))) - nat (max 0 (startCol - 1)))
                       (drop (nat (max 0 (startCol - 1))) line)))
   \<and> (max 0 (startCol - 1) < int (length line) \<and> endCol < 0 \<longrightarrow>
        sliceFixed line startCol endCol
          = trim (take (nat (int (length line) + endCol) - nat (max 0 (startCol - 1)))
                       (drop (nat (max 0 (startCol - 1))) line)))"
proof -
  have e1: "sliceFixed '''' 1 5 = ''''"
    by (simp add: sliceFixed_def)
  have e2: "sliceFixed ''AB'' 1 10 = ''AB''"
    by (simp add: slice_eval)
  have short: "sliceFixed line 200 210 = ''''" if "length line < 200"
    using that by (simp add: sliceFixed_def Let_def)
  have trimmed: "trim (sliceFixed line startCol endCol) = sliceFixed line startCol endCol"
    by (simp add: sliceFixed_def Let_def trim_idem trim_Nil)
  have beyond: "sliceFixed line startCol endCol = ''''"
    if "int (length line) \<le> max 0 (startCol - 1)"
  proof -
    have "\<not> max 0 (startCol - 1) < int (length line)"
      using that by linarith
    then show ?thesis
      by (simp only: sliceFixed_def Let_def if_False if_cancel)
  qed
  have inside: "sliceFixed line startCol endCol
          = trim (take (nat (min endCol (int (length line))) - nat (max 0 (startCol - 1)))
                       (drop (nat (max 0 (startCol - 1))) line))"
    if h: "max 0 (startCol - 1) < int (length line) \<and> 0 \<le> endCol"
  proof -
    have "line \<noteq> []"
      using h by auto
    moreover have "slice line (max 0 (startCol - 1)) endCol
        = take (nat (min endCol (int (length line))) - nat (max 0 (startCol - 1)))
               (drop (nat (max 0 (startCol - 1))) line)"
      using h by (intro slice_nonneg) auto
    ultimately show ?thesis
      using h by (simp add: sliceFixed_def Let_def)
  qed
  have fromEnd: "sliceFixed line startCol endCol
          = trim (take (nat (int (length line) + endCol) - nat (max 0 (startCol - 1)))
                       (drop (nat (max 0 (startCol - 1))) line))"
    if h: "max 0 (startCol - 1) < int (length line) \<and> endCol < 0"
  proof -
    have "line \<noteq> []"
      using h by auto
    moreover have "slice line (max 0 (startCol - 1)) endCol
        = take (nat (int (length line) + endCol) - nat (max 0 (startCol - 1)))
               (drop (nat (max 0 (startCol - 1))) line)"
      using h by (intro slice_negative) auto
    ultimately show ?thesis
      using h by (simp add: sliceFixed_def Let_def)
  qed
  from e1 e2 short trimmed beyond inside fromEnd show ?thesis
    by blast
qed

theorem C9_sliceFixed_witness:
  "length ''AB'' < 200 \<and> sliceFixed ''AB'' 200 210 = ''''
   \<and> int (length ''AB'') \<le> max 0 (3 - 1) \<and> sliceFixed ''AB'' 3 4 = ''''
   \<and> max 0 (2 - 1) < int (length ''  AB  CD   '') \<and> (0::int) \<le> 9
   \<and> sliceFixed ''  AB  CD   '' 2 9 = ''AB  CD''
   \<and> sliceFixed ''hello'' 1 (- 1) = ''hell''"
proof -
  have h1: "length ''AB'' < 200"
    by simp
  have h2: "int (length ''AB'') \<le> max 0 (3 - 1)"
    by simp
  have h3: "max 0 (2 - 1) < int (length ''  AB  CD   '') \<and> (0::int) \<le> 9"
    by simp
  have r1: "sliceFixed ''AB'' 200 210 = ''''"
    using C9_sliceFixed_total_trims [of "''AB''"] h1 by blast
  have r2: "sliceFixed ''AB'' 3 4 = ''''"
    using C9_sliceFixed_total_trims [of "''AB''" 3 4] h2 by blast
  have "sliceFixed ''  AB  CD   '' 2 9
          = trim (take (nat (min 9 (int (length ''  AB  CD   ''))) - nat (max 0 (2 - 1)))
                       (drop (nat (max 0 (2 - 1))) ''  AB  CD   ''))"
    using C9_sliceFixed_total_trims [of "''  AB  CD   ''" 2 9] h3 by blast
  also have "\<dots> = ''AB  CD''"
    by (simp add: trim_def isSpace_def)
  finally have r3: "sliceFixed ''  AB  CD   '' 2 9 = ''AB  CD''" .
  have h4: "max 0 (1 - 1) < int (length ''hello'') \<and> (- 1 :: int) < 0"
    by simp
  have "sliceFixed ''hello'' 1 (- 1)
          = trim (take (nat (int (length ''hello'') + - 1) - nat (max 0 (1 - 1)))
                       (drop (nat (max 0 (1 - 1))) ''hello''))"
    using C9_sliceFixed_total_trims [of "''hello''" 1 "- 1"] h4 by blast
  also have "\<dots> = ''hell''"
    by (simp add: trim_def isSpace_def)
  finally have r4: "sliceFixed ''hello'' 1 (- 1) = ''hell''" .
  from h1 h2 h3 r1 r2 r3 r4 show ?thesis
    by blast
qed


section \<open>Properties of the record-number extractor\<close>

lemma includesStr_iff: "includesStr s kw \<longleftrightarrow> (\<exists>pre post. s = pre @ kw @ post)"
proof (induction s)
  case Nil
  then show ?case by auto
next
  case (Cons c cs)
  show ?case
  proof
    assume "includesStr (c # cs) kw"
    then consider "prefix kw (c # cs)" | "includesStr cs kw" by auto
    then show "\<exists>pre post. c # cs = pre @ kw @ post"
    proof cases
      case 1
      then obtain post where "c # cs = kw @ post" by (auto simp: prefix_def)
      then have "c # cs = [] @ kw @ post" by simp
      then show ?thesis by blast
    next
      case 2
      then obtain pre post where "cs = pre @ kw @ post" using Cons.IH by auto
      then have "c # cs = (c # pre) @ kw @ post" by simp
      then show ?thesis by blast
    qed
  next
    assume "\<exists>pre post. c # cs = pre @ kw @ post"
    then obtain pre post where e: "c # cs = pre @ kw @ post" by auto
    show "includesStr (c # cs) kw"
    proof (cases pre)
      case Nil
      then have "prefix kw (c # cs)" using e by (auto simp: prefix_def)
      then show ?thesis by simp
    next
      case (Cons p ps)
      then have "cs = ps @ kw @ post" using e by simp
      then have "includesStr cs kw" using Cons.IH by blast
      then show ?thesis by simp
    qed
  qed
qed

lemma prefix_split: "prefix xs s \<Longrightarrow> s = xs @ drop (length xs) s"
  by (auto simp: prefix_def)

lemma digitRun_prefix: "prefix (digitRun cap s) s"
proof (cases cap)
  case None
  then show ?thesis by (simp add: digitRun_def takeWhile_is_prefix)
next
  case (Some n)
  have "prefix (take n (takeWhile isDigit s)) (takeWhile isDigit s)"
    by (rule take_is_prefix)
  also have "prefix (takeWhile isDigit s) s"
    by (rule takeWhile_is_prefix)
  finally show ?thesis
    using Some by (simp add: digitRun_def)
qed

lemma digitRun_digits: "list_all isDigit (digitRun cap s)"
  by (cases cap) (auto simp: digitRun_def list_all_iff dest: in_set_takeD set_takeWhileD)

lemma digitRun_cap: "capOk cap (digitRun cap s)"
  by (cases cap) (auto simp: digitRun_def capOk_def)

lemma matchRegistroAt_Some:
  assumes "matchRegistroAt cap s = Some (ds, rest)"
  shows "\<exists>ws. s = ''Registro'' @ ws @ ds @ rest \<and> ws \<noteq> [] \<and> list_all isSpace ws
              \<and> ds \<noteq> [] \<and> list_all isDigit ds \<and> capOk cap ds"
proof -
  from assms have p: "prefix ''Registro'' s"
    by (simp add: matchRegistroAt_def split: if_splits)
  define r where "r = drop 8 s"
  define ws where "ws = takeWhile isSpace r"
  define a where "a = dropWhile isSpace r"
  from assms p have m: "ws \<noteq> []" "ds = digitRun cap a" "ds \<noteq> []" "rest = drop (length ds) a"
    by (auto simp: matchRegistroAt_def Let_def r_def ws_def a_def split: if_splits)
  have s: "s = ''Registro'' @ r"
    using p by (auto simp: prefix_def r_def)
  have r: "r = ws @ a"
    by (simp add: ws_def a_def)
  have a: "a = ds @ rest"
    using prefix_split [OF digitRun_prefix [of cap a]] m by simp
  have e: "s = ''Registro'' @ ws @ ds @ rest"
    using s r a by simp
  have w: "list_all isSpace ws"
    by (auto simp: ws_def list_all_iff dest: set_takeWhileD)
  have d: "list_all isDigit ds" "capOk cap ds"
    using digitRun_digits [of cap a] digitRun_cap [of cap a] m by simp_all
  from e m(1) w m(3) d show ?thesis
    by blast
qed

lemma matchAllRegistro_sound:
  "ds \<in> set (matchAllRegistro cap t) \<Longrightarrow>
   \<exists>pre ws post. t = pre @ ''Registro'' @ ws @ ds @ post \<and> ws \<noteq> [] \<and> list_all isSpace ws
                  \<and> ds \<noteq> [] \<and> list_all isDigit ds \<and> capOk cap ds"
proof (induction cap t rule: matchAllRegistro.induct)
  case (1 cap)
  then show ?case by simp
next
  case (2 cap c cs)
  show ?case
  proof (cases "matchRegistroAt cap (c # cs)")
    case None
    then have "ds \<in> set (matchAllRegistro cap cs)"
      using "2.prems" by simp
    then obtain pre ws post where
      "cs = pre @ ''Registro'' @ ws @ ds @ post \<and> ws \<noteq> [] \<and> list_all isSpace ws
         \<and> ds \<noteq> [] \<and> list_all isDigit ds \<and> capOk cap ds"
      using "2.IH"(1) [OF None] by blast
    then have "c # cs = (c # pre) @ ''Registro'' @ ws @ ds @ post \<and> ws \<noteq> [] \<and> list_all isSpace ws
         \<and> ds \<noteq> [] \<and> list_all isDigit ds \<and> capOk cap ds"
      by simp
    then show ?thesis by blast
  next
    case (Some x)
    obtain d rest where x: "x = (d, rest)" by (cases x)
    from matchRegistroAt_Some [of cap "c # cs" d rest] Some x obtain ws0 where
      w: "c # cs = ''Registro'' @ ws0 @ d @ rest \<and> ws0 \<noteq> [] \<and> list_all isSpace ws0
         \<and> d \<noteq> [] \<and> list_all isDigit d \<and> capOk cap d"
      by auto
    from "2.prems" Some x consider "ds = d" | "ds \<in> set (matchAllRegistro cap rest)"
      by auto
    then show ?thesis
    proof cases
      case 1
      then have "c # cs = [] @ ''Registro'' @ ws0 @ ds @ rest \<and> ws0 \<noteq> [] \<and> list_all isSpace ws0
         \<and> ds \<noteq> [] \<and> list_all isDigit ds \<and> capOk cap ds"
        using w by simp
      then show ?thesis by blast
    next
      case 2
      then obtain pre ws post where
        r: "rest = pre @ ''Registro'' @ ws @ ds @ post \<and> ws \<noteq> [] \<and> list_all isSpace ws
           \<and> ds \<noteq> [] \<and> list_all isDigit ds \<and> capOk cap ds"
        using "2.IH"(2) [of x d rest] Some x by blast
      then have "c # cs = (''Registro'' @ ws0 @ d @ pre) @ ''Registro'' @ ws @ ds @ post"
        using w by simp
      then show ?thesis using r by blast
    qed
  qed
qed


lemmas registro_eval = extractRegistrosFromPdf_def extractRowNumbersFromPdf_def matchRegistroAt_def
  digitRun_def isSpace_def isDigit_def parseInt_def digitsValue_def fromSet_def Let_def
  parseIntNumber_def plusOne_def natToNumber_exact numeral_eq_enat

lemma matchAllRegistro_none:
  assumes "\<forall>pre ws d post. \<not> (t = pre @ ''Registro'' @ ws @ d # post \<and> ws \<noteq> []
             \<and> list_all isSpace ws \<and> isDigit d)"
  shows "matchAllRegistro cap t = []"
proof (rule ccontr)
  assume "matchAllRegistro cap t \<noteq> []"
  then obtain ds where "ds \<in> set (matchAllRegistro cap t)"
    by (cases "matchAllRegistro cap t") auto
  then obtain pre ws post where
    m: "t = pre @ ''Registro'' @ ws @ ds @ post" "ws \<noteq> []" "list_all isSpace ws"
       "ds \<noteq> []" "list_all isDigit ds"
    using matchAllRegistro_sound by blast
  obtain d ds' where ds: "ds = d # ds'"
    using m(4) by (cases ds) auto
  have "t = pre @ ''Registro'' @ ws @ d # (ds' @ post)" "isDigit d"
    using m ds by simp_all
  with m(2,3) assms show False
    by blast
qed

lemma sorted_extractRegistros:
  "sorted_wrt (<) (extractRegistrosFromPdf t)" "sorted_wrt (<) (extractRowNumbersFromPdf t)"
  by (simp_all add: strict_sorted_iff extractRegistrosFromPdf_def extractRowNumbersFromPdf_def fromSet_def)

lemma set_extractRegistros:
  "set (extractRegistrosFromPdf t) = parseInt ` set (matchAllRegistro (Some 5) t)"
  "set (extractRowNumbersFromPdf t) = (\<lambda>m. plusOne (parseIntNumber m)) ` set (matchAllRegistro None t)"
  by (simp_all add: extractRegistrosFromPdf_def extractRowNumbersFromPdf_def fromSet_def)

lemma extractRegistros_elem:
  assumes "n \<in> set (extractRegistrosFromPdf t)"
  shows "\<exists>pre ws ds post. t = pre @ ''Registro'' @ ws @ ds @ post \<and> ws \<noteq> [] \<and> list_all isSpace ws
           \<and> 1 \<le> length ds \<and> length ds \<le> 5 \<and> list_all isDigit ds \<and> n = int (digitsValue ds)"
proof -
  from assms obtain ds where d: "ds \<in> set (matchAllRegistro (Some 5) t)" "n = parseInt ds"
    by (auto simp: set_extractRegistros)
  from matchAllRegistro_sound [OF d(1)] obtain pre ws post where
    m: "t = pre @ ''Registro'' @ ws @ ds @ post" "ws \<noteq> []" "list_all isSpace ws"
       "ds \<noteq> []" "list_all isDigit ds" "capOk (Some 5) ds"
    by blast
  have "1 \<le> length ds" "length ds \<le> 5"
    using m(4,6) by (cases ds; simp add: capOk_def)+
  with m d(2) show ?thesis
    unfolding parseInt_def by blast
qed

lemma extractRowNumbers_elem:
  assumes "n \<in> set (extractRowNumbersFromPdf t)"
  shows "\<exists>pre ws ds post. t = pre @ ''Registro'' @ ws @ ds @ post \<and> ws \<noteq> [] \<and> list_all isSpace ws
           \<and> 1 \<le> length ds \<and> list_all isDigit ds \<and> n = plusOne (parseIntNumber ds)"
proof -
  from assms obtain ds where d: "ds \<in> set (matchAllRegistro None t)" "n = plusOne (parseIntNumber ds)"
    by (auto simp: set_extractRegistros)
  from matchAllRegistro_sound [OF d(1)] obtain pre ws post where
    m: "t = pre @ ''Registro'' @ ws @ ds @ post" "ws \<noteq> []" "list_all isSpace ws"
       "ds \<noteq> []" "list_all isDigit ds"
    by blast
  have "1 \<le> length ds"
    using m(4) by (cases ds) simp_all
  with m d(2) show ?thesis
    by blast
qed

lemma rowNumber_exact:
  assumes "list_all isDigit ds" "length ds \<le> 15"
  shows "plusOne (parseIntNumber ds) = enat (digitsValue ds + 1)"
proof -
  have "digitsValue ds < 10 ^ length ds"
    using assms(1) by (intro digitsValue_bound) (simp add: list_all_iff)
  also have "(10::nat) ^ length ds \<le> 10 ^ 15"
    using assms(2) by (intro power_increasing) simp_all
  finally have "digitsValue ds + 1 < 2 ^ 53"
    by simp
  then show ?thesis
    using natToNumber_exact [of "digitsValue ds"] plusOne_exact [of "digitsValue ds"]
    by (simp add: parseIntNumber_def)
qed

lemma rowNumber_in_range:
  assumes "plusOne (parseIntNumber ds) < enat N" "N \<le> 2 ^ 53"
  shows "plusOne (parseIntNumber ds) = enat (digitsValue ds + 1)"
  using plusOne_natToNumber_in_range [of "digitsValue ds" N] assms
  by (simp add: parseIntNumber_def)

lemma rowNumber_infinity:
  assumes "DBL_OVERFLOW \<le> of_nat (digitsValue ds)"
  shows "plusOne (parseIntNumber ds) = \<infinity>"
  using assms by (simp add: parseIntNumber_def natToNumber_def plusOne_def)

lemma match_region_no_R:
  assumes ws: "list_all isSpace ws" and ds: "list_all isDigit ds"
  shows "CHR ''R'' \<notin> set (''egistro'' @ ws @ ds)"
proof -
  have "\<not> isSpace (CHR ''R'')" "\<not> isDigit (CHR ''R'')"
    by (simp_all add: isSpace_def isDigit_def)
  then show ?thesis
    using ws ds by (auto simp: list_all_iff)
qed

lemma later_match_behind:
  assumes t1: "t = ''Registro'' @ ws @ ds @ rest0"
    and ws: "list_all isSpace ws" and ds: "list_all isDigit ds"
    and t2: "t = pre @ s" and pre: "pre \<noteq> []" and s: "prefix ''Registro'' s"
  shows "\<exists>pre'. rest0 = pre' @ s"
proof -
  let ?u = "''Registro'' @ ws @ ds"
  have le: "length ?u \<le> length pre"
  proof (rule ccontr)
    assume "\<not> length ?u \<le> length pre"
    then have lt: "length pre < length ?u"
      by simp
    obtain s' where s': "s = CHR ''R'' # s'"
      using s by (auto simp: prefix_def)
    have "t ! length pre = CHR ''R''"
      unfolding t2 s' by (simp add: nth_append)
    moreover have "t ! length pre = ?u ! length pre"
      using lt unfolding t1 by (simp only: append_assoc [symmetric] nth_append if_True)
    moreover have "?u ! length pre = (''egistro'' @ ws @ ds) ! (length pre - 1)"
      using pre by (cases pre) simp_all
    moreover have "(''egistro'' @ ws @ ds) ! (length pre - 1) \<in> set (''egistro'' @ ws @ ds)"
      using lt pre by (intro nth_mem) (cases pre; simp)
    ultimately show False
      using match_region_no_R [OF ws ds] by metis
  qed
  have "?u @ rest0 = pre @ s"
    using t1 t2 by simp
  then obtain v where "pre = ?u @ v"
    using le by (metis append_eq_append_conv_if append_take_drop_id)
  then have "rest0 = v @ s"
    using \<open>?u @ rest0 = pre @ s\<close> by simp
  then show ?thesis by blast
qed

lemma matchAllRegistro_complete:
  "matchRegistroAt cap s = Some (ds, rest) \<Longrightarrow> ds \<in> set (matchAllRegistro cap (pre @ s))"
proof (induction cap "pre @ s" arbitrary: pre rule: matchAllRegistro.induct)
  case (1 cap)
  then show ?case
    by (simp add: matchRegistroAt_def)
next
  case (2 cap c cs)
  have sp: "prefix ''Registro'' s"
    using "2.prems" by (simp add: matchRegistroAt_def split: if_splits)
  show ?case
  proof (cases pre)
    case Nil
    then have "matchRegistroAt cap (c # cs) = Some (ds, rest)"
      using "2.hyps"(3) "2.prems" by simp
    then have "ds \<in> set (matchAllRegistro cap (c # cs))"
      by simp
    then show ?thesis
      using "2.hyps"(3) by simp
  next
    case (Cons p pre')
    then have cs: "cs = pre' @ s"
      using "2.hyps"(3) by simp
    show ?thesis
    proof (cases "matchRegistroAt cap (c # cs)")
      case None
      then have "ds \<in> set (matchAllRegistro cap (pre' @ s))"
        using "2.hyps"(1) [OF None cs "2.prems"] by simp
      then have "ds \<in> set (matchAllRegistro cap (c # cs))"
        using None cs by simp
      then show ?thesis
        using "2.hyps"(3) by simp
    next
      case (Some x)
      obtain d0 rest0 where x: "x = (d0, rest0)" by (cases x)
      from matchRegistroAt_Some [of cap "c # cs" d0 rest0] Some x obtain ws0 where
        w: "c # cs = ''Registro'' @ ws0 @ d0 @ rest0" "list_all isSpace ws0" "list_all isDigit d0"
        by auto
      have "\<exists>pre''. rest0 = pre'' @ s"
        using w "2.hyps"(3) Cons sp by (intro later_match_behind [of "c # cs" ws0 d0 rest0 pre s]) auto
      then obtain pre'' where r: "rest0 = pre'' @ s"
        by blast
      have xx: "(d0, pre'' @ s) = x"
        using x r by simp
      have "ds \<in> set (matchAllRegistro cap (pre'' @ s))"
        by (rule "2.hyps"(2) [OF Some xx "2.prems"])
      then have "ds \<in> set (matchAllRegistro cap (c # cs))"
        using Some x r by simp
      then show ?thesis
        using "2.hyps"(3) by simp
    qed
  qed
qed


lemma matchRegistroAt_greedy:
  assumes "matchRegistroAt cap s = Some (ds, rest)"
  shows "ds = digitRun cap (ds @ rest)"
proof -
  from assms have p: "prefix ''Registro'' s"
    by (simp add: matchRegistroAt_def split: if_splits)
  define a where "a = dropWhile isSpace (drop 8 s)"
  from assms p have m: "ds = digitRun cap a" "rest = drop (length ds) a"
    by (auto simp: matchRegistroAt_def Let_def a_def split: if_splits)
  have "a = ds @ rest"
    using prefix_split [OF digitRun_prefix [of cap a]] m by simp
  then show ?thesis
    using m(1) by simp
qed

lemma matchRegistroAt_intro:
  assumes ws: "ws \<noteq> []" "list_all isSpace ws" and ds: "ds \<noteq> []" "ds = digitRun cap (ds @ rest)"
  shows "matchRegistroAt cap (''Registro'' @ ws @ ds @ rest) = Some (ds, rest)"
proof -
  have "list_all isDigit ds"
    using digitRun_digits [of cap "ds @ rest"] ds(2) by simp
  then have "isDigit (hd ds)"
    using ds(1) by (cases ds) simp_all
  then have nsp: "\<not> isSpace (hd (ds @ rest))"
    using ds(1) by (auto simp: isDigit_def isSpace_def)
  have ne: "ds @ rest \<noteq> []"
    using ds(1) by simp
  have sp: "\<And>x. x \<in> set ws \<Longrightarrow> isSpace x"
    using ws(2) by (simp add: list_all_iff)
  have tw: "takeWhile isSpace (ws @ ds @ rest) = ws"
    using nsp ne sp by (cases "ds @ rest") (simp_all add: takeWhile_append2)
  have dw: "dropWhile isSpace (ws @ ds @ rest) = ds @ rest"
    using nsp ne sp by (cases "ds @ rest") (simp_all add: dropWhile_append2)
  show ?thesis
    using ws(1) ds by (simp add: matchRegistroAt_def Let_def tw dw)
qed

lemma matchAllRegistro_iff:
  "ds \<in> set (matchAllRegistro cap t) \<longleftrightarrow>
     (\<exists>pre ws rest. t = pre @ ''Registro'' @ ws @ ds @ rest \<and> ws \<noteq> [] \<and> list_all isSpace ws
        \<and> ds \<noteq> [] \<and> ds = digitRun cap (ds @ rest))"
proof
  assume "ds \<in> set (matchAllRegistro cap t)"
  then show "\<exists>pre ws rest. t = pre @ ''Registro'' @ ws @ ds @ rest \<and> ws \<noteq> [] \<and> list_all isSpace ws
        \<and> ds \<noteq> [] \<and> ds = digitRun cap (ds @ rest)"
  proof (induction cap t rule: matchAllRegistro.induct)
    case (1 cap)
    then show ?case by simp
  next
    case (2 cap c cs)
    show ?case
    proof (cases "matchRegistroAt cap (c # cs)")
      case None
      then have "ds \<in> set (matchAllRegistro cap cs)"
        using "2.prems" by simp
      then obtain pre ws rest where
        "cs = pre @ ''Registro'' @ ws @ ds @ rest \<and> ws \<noteq> [] \<and> list_all isSpace ws
           \<and> ds \<noteq> [] \<and> ds = digitRun cap (ds @ rest)"
        using "2.IH"(1) [OF None] by blast
      then have "c # cs = (c # pre) @ ''Registro'' @ ws @ ds @ rest \<and> ws \<noteq> [] \<and> list_all isSpace ws
           \<and> ds \<noteq> [] \<and> ds = digitRun cap (ds @ rest)"
        by simp
      then show ?thesis by blast
    next
      case (Some x)
      obtain d rest0 where x: "x = (d, rest0)" by (cases x)
      have md: "matchRegistroAt cap (c # cs) = Some (d, rest0)"
        using Some x by simp
      from matchRegistroAt_Some [OF md] obtain ws0 where
        w: "c # cs = ''Registro'' @ ws0 @ d @ rest0" "ws0 \<noteq> []" "list_all isSpace ws0" "d \<noteq> []"
        by auto
      from "2.prems" Some x consider "ds = d" | "ds \<in> set (matchAllRegistro cap rest0)"
        by auto
      then show ?thesis
      proof cases
        case 1
        then have "c # cs = [] @ ''Registro'' @ ws0 @ ds @ rest0 \<and> ws0 \<noteq> [] \<and> list_all isSpace ws0
           \<and> ds \<noteq> [] \<and> ds = digitRun cap (ds @ rest0)"
          using w matchRegistroAt_greedy [OF md] by simp
        then show ?thesis by blast
      next
        case 2
        then obtain pre ws rest where
          r: "rest0 = pre @ ''Registro'' @ ws @ ds @ rest \<and> ws \<noteq> [] \<and> list_all isSpace ws
             \<and> ds \<noteq> [] \<and> ds = digitRun cap (ds @ rest)"
          using "2.IH"(2) [OF Some x [symmetric]] by blast
        then have "c # cs = (''Registro'' @ ws0 @ d @ pre) @ ''Registro'' @ ws @ ds @ rest"
          using w by simp
        then show ?thesis using r by blast
      qed
    qed
  qed
next
  assume "\<exists>pre ws rest. t = pre @ ''Registro'' @ ws @ ds @ rest \<and> ws \<noteq> [] \<and> list_all isSpace ws
        \<and> ds \<noteq> [] \<and> ds = digitRun cap (ds @ rest)"
  then obtain pre ws rest where
    t: "t = pre @ ''Registro'' @ ws @ ds @ rest" and ws: "ws \<noteq> []" "list_all isSpace ws"
    and ds: "ds \<noteq> []" "ds = digitRun cap (ds @ rest)"
    by blast
  have "matchRegistroAt cap (''Registro'' @ ws @ ds @ rest) = Some (ds, rest)"
    using ws ds by (rule matchRegistroAt_intro)
  then have "ds \<in> set (matchAllRegistro cap (pre @ ''Registro'' @ ws @ ds @ rest))"
    by (rule matchAllRegistro_complete)
  then show "ds \<in> set (matchAllRegistro cap t)"
    by (simp only: t)
qed

lemma extractRegistros_iff:
  "n \<in> set (extractRegistrosFromPdf t) \<longleftrightarrow>
     (\<exists>pre ws ds rest. t = pre @ ''Registro'' @ ws @ ds @ rest \<and> ws \<noteq> [] \<and> list_all isSpace ws
        \<and> ds \<noteq> [] \<and> ds = take 5 (takeWhile isDigit (ds @ rest)) \<and> n = int (digitsValue ds))"
proof -
  have "n \<in> set (extractRegistrosFromPdf t)
          \<longleftrightarrow> (\<exists>ds. ds \<in> set (matchAllRegistro (Some 5) t) \<and> n = int (digitsValue ds))"
    by (auto simp: set_extractRegistros parseInt_def)
  also have "\<dots> \<longleftrightarrow> (\<exists>ds pre ws rest. t = pre @ ''Registro'' @ ws @ ds @ rest \<and> ws \<noteq> []
        \<and> list_all isSpace ws \<and> ds \<noteq> [] \<and> ds = take 5 (takeWhile isDigit (ds @ rest))
        \<and> n = int (digitsValue ds))"
    unfolding matchAllRegistro_iff digitRun_def option.case by blast
  finally show ?thesis
    by blast
qed

lemma extractRowNumbers_iff:
  "n \<in> set (extractRowNumbersFromPdf t) \<longleftrightarrow>
     (\<exists>pre ws ds rest. t = pre @ ''Registro'' @ ws @ ds @ rest \<and> ws \<noteq> [] \<and> list_all isSpace ws
        \<and> ds \<noteq> [] \<and> ds = takeWhile isDigit (ds @ rest) \<and> n = plusOne (parseIntNumber ds))"
proof -
  have "n \<in> set (extractRowNumbersFromPdf t)
          \<longleftrightarrow> (\<exists>ds. ds \<in> set (matchAllRegistro None t) \<and> n = plusOne (parseIntNumber ds))"
    by (auto simp: set_extractRegistros)
  also have "\<dots> \<longleftrightarrow> (\<exists>ds pre ws rest. t = pre @ ''Registro'' @ ws @ ds @ rest \<and> ws \<noteq> []
        \<and> list_all isSpace ws \<and> ds \<noteq> [] \<and> ds = takeWhile isDigit (ds @ rest)
        \<and> n = plusOne (parseIntNumber ds))"
    unfolding matchAllRegistro_iff digitRun_def option.case by blast
  finally show ?thesis
    by blast
qed

lemma rowNumbers_2_53_plus_1: "extractRowNumbersFromPdf ''Registro 9007199254740993'' = [9007199254740992]"
proof -
  have m: "matchAllRegistro None ''Registro 9007199254740993'' = [''9007199254740993'']"
    by (simp add: matchRegistroAt_def digitRun_def isSpace_def isDigit_def)
  have d: "digitsValue ''9007199254740993'' = 9007199254740993"
    by (simp add: digitsValue_def)
  have small: "\<not> DBL_OVERFLOW \<le> 9007199254740993"
    by (simp add: DBL_OVERFLOW_def)
  have n: "natToNumber 9007199254740993 = enat 9007199254740992"
    using small by (simp add: natToNumber_def toDouble_2_53_plus_1)
  have "plusOne (parseIntNumber ''9007199254740993'') = enat 9007199254740992"
    by (simp add: parseIntNumber_def d n plusOne_def)
  then show ?thesis
    unfolding extractRowNumbersFromPdf_def m by (simp add: fromSet_def numeral_eq_enat)
qed

text \<open>
  C7 (amended). Both extractors return a strictly ascending sequence (sorted, no duplicates),
  and as functions of the text alone they return the same sequence whenever they are run on
  the same text. The text path returns exactly the values of the digit runs, cut after 5
  digits, that follow the word Registro and at least one whitespace character somewhere in
  the text. The spreadsheet path takes such runs whole and returns exactly the Numbers
  \<open>parseInt(run) + 1\<close>: the value of the run plus one for a run of at most 15 digits, a
  rounded double for a longer run (\<open>"Registro 9007199254740993"\<close> gives
  [9007199254740992]) and Infinity for a run beyond the range of a double. A text in which
  no digit follows Registro and whitespace gives the empty sequence. On
  \<open>"Registro 3 ... Registro 1 ... Registro 3"\<close> the text path gives [1, 3] and the
  spreadsheet path [2, 4].
\<close>

theorem C7_registro_extractor_amended:
  "sorted_wrt (<) (extractRegistrosFromPdf t)
   \<and> distinct (extractRegistrosFromPdf t) \<and> sorted (extractRegistrosFromPdf t)
   \<and> sorted_wrt (<) (extractRowNumbersFromPdf t)
   \<and> distinct (extractRowNumbersFromPdf t) \<and> sorted (extractRowNumbersFromPdf t)
   \<and> (\<forall>n\<in>set (extractRegistrosFromPdf t).
         \<exists>pre ws ds post. t = pre @ ''Registro'' @ ws @ ds @ post \<and> ws \<noteq> [] \<and> list_all isSpace ws
           \<and> 1 \<le> length ds \<and> length ds \<le> 5 \<and> list_all isDigit ds \<and> n = int (digitsValue ds))
   \<and> (\<forall>x\<in>set (extractRowNumbersFromPdf t).
         \<exists>pre ws ds post. t = pre @ ''Registro'' @ ws @ ds @ post \<and> ws \<noteq> [] \<and> list_all isSpace ws
           \<and> 1 \<le> length ds \<and> list_all isDigit ds \<and> x = plusOne (parseIntNumber ds))
   \<and> (n \<in> set (extractRegistrosFromPdf t) \<longleftrightarrow>
         (\<exists>pre ws ds rest. t = pre @ ''Registro'' @ ws @ ds @ rest \<and> ws \<noteq> [] \<and> list_all isSpace ws
            \<and> ds \<noteq> [] \<and> ds = take 5 (takeWhile isDigit (ds @ rest)) \<and> n = int (digitsValue ds)))
   \<and> (x \<in> set (extractRowNumbersFromPdf t) \<longleftrightarrow>
         (\<exists>pre ws ds rest. t = pre @ ''Registro'' @ ws @ ds @ rest \<and> ws \<noteq> [] \<and> list_all isSpace ws
            \<and> ds \<noteq> [] \<and> ds = takeWhile isDigit (ds @ rest) \<and> x = plusOne (parseIntNumber ds)))
   \<and> (list_all isDigit run \<and> length run \<le> 15 \<longrightarrow>
         plusOne (parseIntNumber run) = enat (digitsValue run + 1))
   \<and> (DBL_OVERFLOW \<le> of_nat (digitsValue run) \<longrightarrow> plusOne (parseIntNumber run) = \<infinity>)
   \<and> ((\<forall>pre ws d post. \<not> (t = pre @ ''Registro'' @ ws @ d # post \<and> ws \<noteq> []
             \<and> list_all isSpace ws \<and> isDigit d))
        \<longrightarrow> extractRegistrosFromPdf t = [] \<and> extractRowNumbersFromPdf t = [])
   \<and> extractRegistrosFromPdf ''Registro 3 ... Registro 1 ... Registro 3'' = [1, 3]
   \<and> extractRowNumbersFromPdf ''Registro 3 ... Registro 1 ... Registro 3'' = [2, 4]
   \<and> extractRowNumbersFromPdf ''Registro 9007199254740993'' = [9007199254740992]"
proof -
  have s1: "sorted_wrt (<) (extractRegistrosFromPdf t)"
    and s2: "sorted_wrt (<) (extractRowNumbersFromPdf t)"
    by (rule sorted_extractRegistros)+
  have d1: "distinct (extractRegistrosFromPdf t) \<and> sorted (extractRegistrosFromPdf t)"
    using s1 by (simp add: strict_sorted_iff)
  have d2: "distinct (extractRowNumbersFromPdf t) \<and> sorted (extractRowNumbersFromPdf t)"
    using s2 by (simp add: strict_sorted_iff)
  have "extractRegistrosFromPdf t = [] \<and> extractRowNumbersFromPdf t = []"
    if "\<forall>pre ws d post. \<not> (t = pre @ ''Registro'' @ ws @ d # post \<and> ws \<noteq> []
             \<and> list_all isSpace ws \<and> isDigit d)"
    using matchAllRegistro_none [OF that]
    by (simp add: extractRegistrosFromPdf_def extractRowNumbersFromPdf_def fromSet_def)
  then have none: "(\<forall>pre ws d post. \<not> (t = pre @ ''Registro'' @ ws @ d # post \<and> ws \<noteq> []
             \<and> list_all isSpace ws \<and> isDigit d))
        \<longrightarrow> extractRegistrosFromPdf t = [] \<and> extractRowNumbersFromPdf t = []"
    by blast
  have e1: "extractRegistrosFromPdf ''Registro 3 ... Registro 1 ... Registro 3'' = [1, 3]"
    by (simp add: registro_eval)
  have e2: "extractRowNumbersFromPdf ''Registro 3 ... Registro 1 ... Registro 3'' = [2, 4]"
    by (simp add: registro_eval)
  note e3 = rowNumbers_2_53_plus_1
  have b1: "\<forall>n\<in>set (extractRegistrosFromPdf t).
         \<exists>pre ws ds post. t = pre @ ''Registro'' @ ws @ ds @ post \<and> ws \<noteq> [] \<and> list_all isSpace ws
           \<and> 1 \<le> length ds \<and> length ds \<le> 5 \<and> list_all isDigit ds \<and> n = int (digitsValue ds)"
    using extractRegistros_elem [of _ t] by blast
  have b2: "\<forall>x\<in>set (extractRowNumbersFromPdf t).
         \<exists>pre ws ds post. t = pre @ ''Registro'' @ ws @ ds @ post \<and> ws \<noteq> [] \<and> list_all isSpace ws
           \<and> 1 \<le> length ds \<and> list_all isDigit ds \<and> x = plusOne (parseIntNumber ds)"
    using extractRowNumbers_elem [of _ t] by blast
  have x1: "list_all isDigit run \<and> length run \<le> 15 \<longrightarrow>
         plusOne (parseIntNumber run) = enat (digitsValue run + 1)"
    using rowNumber_exact [of run] by blast
  have x2: "DBL_OVERFLOW \<le> of_nat (digitsValue run) \<longrightarrow> plusOne (parseIntNumber run) = \<infinity>"
    using rowNumber_infinity [of run] by blast
  note i1 = extractRegistros_iff [of n t] and i2 = extractRowNumbers_iff [of x t]
  show ?thesis
    by (intro conjI s1 s2 b1 b2 i1 i2 e1 e2 e3 none x1 x2 conjunct1 [OF d1] conjunct2 [OF d1]
        conjunct1 [OF d2] conjunct2 [OF d2])
qed

theorem C7_registro_extractor_witness:
  "extractRegistrosFromPdf ''Registro 7'' = [7]
   \<and> (\<exists>pre ws ds post. ''Registro 7'' = pre @ ''Registro'' @ ws @ ds @ post \<and> ws \<noteq> []
         \<and> list_all isSpace ws \<and> 1 \<le> length ds \<and> length ds \<le> 5 \<and> list_all isDigit ds
         \<and> 7 = int (digitsValue ds))
   \<and> extractRowNumbersFromPdf ''Registro 7'' = [8]
   \<and> (\<exists>pre ws ds post. ''Registro 7'' = pre @ ''Registro'' @ ws @ ds @ post \<and> ws \<noteq> []
         \<and> list_all isSpace ws \<and> 1 \<le> length ds \<and> list_all isDigit ds
         \<and> 8 = plusOne (parseIntNumber ds))
   \<and> plusOne (parseIntNumber ''123456'') = enat (digitsValue ''123456'' + 1)
   \<and> digitsValue ''123456'' + 1 = 123457
   \<and> plusOne (parseIntNumber (CHR ''1'' # replicate 309 (CHR ''0''))) = \<infinity>
   \<and> extractRegistrosFromPdf ''Registro x'' = []
   \<and> extractRowNumbersFromPdf ''Registro x'' = []"
proof -
  have r: "extractRegistrosFromPdf ''Registro 7'' = [7]"
    by (simp add: registro_eval)
  then have m1: "7 \<in> set (extractRegistrosFromPdf ''Registro 7'')"
    by simp
  have x: "extractRowNumbersFromPdf ''Registro 7'' = [8]"
    by (simp add: registro_eval)
  then have m2: "8 \<in> set (extractRowNumbersFromPdf ''Registro 7'')"
    by simp
  have run: "list_all isDigit ''123456'' \<and> length ''123456'' \<le> 15"
    by (simp add: isDigit_def)
  have v: "digitsValue ''123456'' + 1 = 123457"
    by (simp add: digitsValue_def)
  have big: "DBL_OVERFLOW \<le> of_nat (digitsValue (CHR ''1'' # replicate 309 (CHR ''0'')))"
    unfolding digitsValue_one_zeros by (simp add: DBL_OVERFLOW_def)
  have nomatch: "\<forall>pre ws d post. \<not> (''Registro x'' = pre @ ''Registro'' @ ws @ d # post \<and> ws \<noteq> []
             \<and> list_all isSpace ws \<and> isDigit d)"
  proof (intro allI notI)
    fix pre ws d post
    assume a: "''Registro x'' = pre @ ''Registro'' @ ws @ d # post \<and> ws \<noteq> []
             \<and> list_all isSpace ws \<and> isDigit d"
    then have "length ''Registro x'' = length (pre @ ''Registro'' @ ws @ d # post)"
      by simp
    then have l: "length pre + length ws + length post = 1"
      by simp
    with a have "pre = [] \<and> post = [] \<and> length ws = 1"
      by (cases ws) auto
    with a have "ws @ [d] = '' x''"
      by simp
    with a show False
      by (cases ws) (auto simp: isDigit_def)
  qed
  from C7_registro_extractor_amended [of "''Registro 7''" _ _ "''123456''"] m1 m2 run
  have p1: "(\<exists>pre ws ds post. ''Registro 7'' = pre @ ''Registro'' @ ws @ ds @ post \<and> ws \<noteq> []
         \<and> list_all isSpace ws \<and> 1 \<le> length ds \<and> length ds \<le> 5 \<and> list_all isDigit ds
         \<and> 7 = int (digitsValue ds))"
    and p2: "(\<exists>pre ws ds post. ''Registro 7'' = pre @ ''Registro'' @ ws @ ds @ post \<and> ws \<noteq> []
         \<and> list_all isSpace ws \<and> 1 \<le> length ds \<and> list_all isDigit ds
         \<and> 8 = plusOne (parseIntNumber ds))"
    and p3: "plusOne (parseIntNumber ''123456'') = enat (digitsValue ''123456'' + 1)"
    by blast+
  from C7_registro_extractor_amended [of _ _ _ "CHR ''1'' # replicate 309 (CHR ''0'')"] big
  have p4: "plusOne (parseIntNumber (CHR ''1'' # replicate 309 (CHR ''0''))) = \<infinity>"
    by blast
  from C7_registro_extractor_amended [of "''Registro x''"] nomatch
  have p5: "extractRegistrosFromPdf ''Registro x'' = [] \<and> extractRowNumbersFromPdf ''Registro x'' = []"
    by blast
  from r x p1 p2 p3 v p4 p5 show ?thesis
    by blast
qed

theorem C7_uncapped_digits_counterexample:
  "extractRowNumbersFromPdf ''Registro 123456'' = [123457]
   \<and> extractRegistrosFromPdf ''Registro 123456'' = [12345]
   \<and> extractRowNumbersFromPdf ''Registro 3 ... Registro 1 ... Registro 3'' \<noteq> [1, 3]"
  by (simp add: registro_eval)

section \<open>Properties of the orchestrators\<close>

lemma pushRows_eq:
  "pushRows lines code desc indices rows
     = rows @ map (\<lambda>i. txtRow (lines ! nat (i - 1)) code desc)
                (filter (\<lambda>i. 1 \<le> i \<and> i \<le> int (length lines)) indices)"
  by (induction indices arbitrary: rows) auto

lemma handler_txt_Some:
  "handler_txt (Some pdfText) (Some txtContent) code desc
     = Inr (aggregate (map (\<lambda>i. txtRow (split (CHR 0x0A) txtContent ! nat (i - 1)) code desc)
              (filter (\<lambda>i. 1 \<le> i \<and> i \<le> int (length (split (CHR 0x0A) txtContent)))
                 (sort (map (\<lambda>r. r * MULT) (extractRegistrosFromPdf pdfText))))))"
  by (simp add: handler_txt_def Let_def pushRows_eq)

lemma handler_txt_error:
  "handler_txt pdfFile txtFile code desc = Inl e
     \<longleftrightarrow> (pdfFile = None \<or> txtFile = None) \<and> e = Error ''Missing files''"
  by (auto simp: handler_txt_def Let_def split: option.splits)

lemma handler_xlsx_Sheet:
  "handler_xlsx (Some pdfText) (Some (Sheet data)) code desc
     = Inr (aggregate (map (\<lambda>i. xlsxRow (data ! the_enat i) code desc)
              (filter (\<lambda>i. 0 \<le> i \<and> i < enat (length data)) (extractRowNumbersFromPdf pdfText))))"
  by (simp add: handler_xlsx_def Let_def o_def)

lemma handler_xlsx_error:
  "handler_xlsx pdfFile excelFile code desc = Inl e
     \<longleftrightarrow> ((pdfFile = None \<or> excelFile = None) \<and> e = Error ''Missing files'')
          \<or> (pdfFile \<noteq> None \<and> (\<exists>msg. excelFile = Some (Unreadable msg) \<and> e = Error msg))"
  by (auto simp: handler_xlsx_def Let_def split: option.splits workbook.splits)

lemma aggregate_Nil: "aggregate [] = \<lparr>results = [], totalTransactions = 0, totalAmount = Num 0\<rparr>"
  by (simp add: aggregate_def)

lemma split_sampleTxt:
  "split (CHR 0x0A) sampleTxt
     = [''l1'', ''l2'', ''l3'', ''l4'', ''l5'', ''l6'', ''l7'', ''l8'', ''l9'', sampleLine]"
  by (simp add: sampleTxt_def sampleLine_def)

lemma txtRow_sampleLine:
  "txtRow sampleLine code desc
     = \<lparr>dni_cex = ''12345678'', nombre = ''PEREZ JUAN'', importe = Num (123456 / 100),
          Referencia = ''REF000000001'', Estado = ''rechazada'',
          Codigo_de_Rechazo = code, Descripcion_de_Rechazo = desc\<rparr>"
  by (simp add: txtRow_def sampleLine_def slice_eval amount_eval ESTADO_def
      TXT_POS_dni_def TXT_POS_nombre_def TXT_POS_referencia_def TXT_POS_importe_def)

lemma txtRow_short: "length l < 24 \<Longrightarrow> txtRow l code desc = emptyRow code desc"
  by (simp add: txtRow_def sliceFixed_def emptyRow_def parseAmount_txt_def ESTADO_def Let_def
      TXT_POS_dni_def TXT_POS_nombre_def TXT_POS_referencia_def TXT_POS_importe_def)

text \<open>
  C2 (amended). When the PDF text has no record-number marker, and the files are there (and
  the spreadsheet can be read), both orchestrators answer with the success payload of an
  empty batch: no results, count 0, total 0. An error result comes only from a missing file
  or an unreadable spreadsheet.
\<close>

theorem C2_no_markers_empty_success_amended:
  "(extractRegistrosFromPdf pdfText = [] \<longrightarrow>
      handler_txt (Some pdfText) (Some txtContent) code desc
        = Inr \<lparr>results = [], totalTransactions = 0, totalAmount = Num 0\<rparr>)
   \<and> (extractRowNumbersFromPdf pdfText = [] \<longrightarrow>
      handler_xlsx (Some pdfText) (Some (Sheet data)) code desc
        = Inr \<lparr>results = [], totalTransactions = 0, totalAmount = Num 0\<rparr>)
   \<and> (handler_txt pdfFile txtFile code desc = Inl e
        \<longleftrightarrow> (pdfFile = None \<or> txtFile = None) \<and> e = Error ''Missing files'')
   \<and> (handler_xlsx pdfFile excelFile code desc = Inl e
        \<longleftrightarrow> ((pdfFile = None \<or> excelFile = None) \<and> e = Error ''Missing files'')
             \<or> (pdfFile \<noteq> None \<and> (\<exists>msg. excelFile = Some (Unreadable msg) \<and> e = Error msg)))"
proof -
  have t: "handler_txt (Some pdfText) (Some txtContent) code desc
        = Inr \<lparr>results = [], totalTransactions = 0, totalAmount = Num 0\<rparr>"
    if "extractRegistrosFromPdf pdfText = []"
    using that by (simp add: handler_txt_Some aggregate_Nil)
  have x: "handler_xlsx (Some pdfText) (Some (Sheet data)) code desc
        = Inr \<lparr>results = [], totalTransactions = 0, totalAmount = Num 0\<rparr>"
    if "extractRowNumbersFromPdf pdfText = []"
    using that by (simp add: handler_xlsx_Sheet aggregate_Nil)
  from t x handler_txt_error [of pdfFile txtFile code desc e]
    handler_xlsx_error [of pdfFile excelFile code desc e]
  show ?thesis
    by blast
qed

theorem C2_no_markers_witness:
  "extractRegistrosFromPdf ''Sin rechazos'' = []
   \<and> handler_txt (Some ''Sin rechazos'') (Some sampleTxt) ''R001'' ''DOCUMENTO ERRADO''
        = Inr \<lparr>results = [], totalTransactions = 0, totalAmount = Num 0\<rparr>
   \<and> extractRowNumbersFromPdf ''Sin rechazos'' = []
   \<and> handler_xlsx (Some ''Sin rechazos'') (Some (Sheet [[Str ''dni'']])) ''R001'' ''DOCUMENTO ERRADO''
        = Inr \<lparr>results = [], totalTransactions = 0, totalAmount = Num 0\<rparr>"
proof -
  have h1: "extractRegistrosFromPdf ''Sin rechazos'' = []"
    by (simp add: registro_eval)
  have h2: "extractRowNumbersFromPdf ''Sin rechazos'' = []"
    by (simp add: registro_eval)
  from h1 h2
    C2_no_markers_empty_success_amended [of "''Sin rechazos''" sampleTxt "''R001''" "''DOCUMENTO ERRADO''"
      "[[Str ''dni'']]"]
  show ?thesis
    by blast
qed

theorem C2_empty_success_counterexample:
  "extractRegistrosFromPdf ''Sin rechazos'' = []
   \<and> handler_txt (Some ''Sin rechazos'') (Some ''una linea'') ''R001'' ''DOCUMENTO ERRADO''
        = Inr \<lparr>results = [], totalTransactions = 0, totalAmount = Num 0\<rparr>
   \<and> extractRowNumbersFromPdf ''Sin rechazos'' = []
   \<and> handler_xlsx (Some ''Sin rechazos'') (Some (Sheet [[Str ''dni'']])) ''R001'' ''DOCUMENTO ERRADO''
        = Inr \<lparr>results = [], totalTransactions = 0, totalAmount = Num 0\<rparr>"
  by (simp add: handler_txt_def handler_xlsx_def aggregate_def registro_eval)

text \<open>
  C4 (amended). On the text path, when Registro 5 is the only record number the extractor
  finds in the report and the companion text has at least 10 lines, exactly one record is
  produced; its fields are read from the line at index 9 and its rejection code and
  description are the ones given, \<open>"R001"\<close> for code \<open>"R001"\<close>.
\<close>

theorem C4_text_path_single_record_amended:
  "extractRegistrosFromPdf ''Registro 5'' = [5]
   \<and> (extractRegistrosFromPdf pdfText = [5] \<and> 10 \<le> length (split (CHR 0x0A) txtContent) \<longrightarrow>
        handler_txt (Some pdfText) (Some txtContent) code desc
          = Inr \<lparr>results = [txtRow (split (CHR 0x0A) txtContent ! 9) code desc],
                 totalTransactions = 1,
                 totalAmount = jsadd (Num 0) (importe (txtRow (split (CHR 0x0A) txtContent ! 9) code desc))\<rparr>
        \<and> Codigo_de_Rechazo (txtRow (split (CHR 0x0A) txtContent ! 9) code desc) = code
        \<and> Descripcion_de_Rechazo (txtRow (split (CHR 0x0A) txtContent ! 9) code desc) = desc
        \<and> dni_cex (txtRow (split (CHR 0x0A) txtContent ! 9) code desc)
            = sliceFixed (split (CHR 0x0A) txtContent ! 9) 25 33
        \<and> (handler_txt (Some pdfText) (Some txtContent) ''R001'' ''DOCUMENTO ERRADO''
             = Inr p \<longrightarrow> length (results p) = 1 \<and> Codigo_de_Rechazo (results p ! 0) = ''R001''))"
proof -
  have e: "extractRegistrosFromPdf ''Registro 5'' = [5]"
    by (simp add: registro_eval)
  have main: "handler_txt (Some pdfText) (Some txtContent) c d
          = Inr \<lparr>results = [txtRow (split (CHR 0x0A) txtContent ! 9) c d],
                 totalTransactions = 1,
                 totalAmount = jsadd (Num 0) (importe (txtRow (split (CHR 0x0A) txtContent ! 9) c d))\<rparr>"
    if "extractRegistrosFromPdf pdfText = [5] \<and> 10 \<le> length (split (CHR 0x0A) txtContent)" for c d
    using that by (simp add: handler_txt_Some MULT_def aggregate_def)
  have fields: "Codigo_de_Rechazo (txtRow l code desc) = code"
    "Descripcion_de_Rechazo (txtRow l code desc) = desc"
    "dni_cex (txtRow l code desc) = sliceFixed l 25 33" for l
    by (simp_all add: txtRow_def Let_def TXT_POS_dni_def)
  have r001: "length (results p) = 1 \<and> Codigo_de_Rechazo (results p ! 0) = ''R001''"
    if "extractRegistrosFromPdf pdfText = [5] \<and> 10 \<le> length (split (CHR 0x0A) txtContent)"
      and "handler_txt (Some pdfText) (Some txtContent) ''R001'' ''DOCUMENTO ERRADO'' = Inr p"
    using main [OF that(1), of "''R001''" "''DOCUMENTO ERRADO''"] that(2)
    by (auto simp: txtRow_def Let_def)
  from e main [of code desc] fields r001 show ?thesis
    by blast
qed

theorem C4_text_path_witness:
  "extractRegistrosFromPdf ''Rechazos: Registro 5'' = [5]
   \<and> length (split (CHR 0x0A) sampleTxt) = 10
   \<and> handler_txt (Some ''Rechazos: Registro 5'') (Some sampleTxt) ''R001'' ''DOCUMENTO ERRADO''
       = Inr \<lparr>results =
                [\<lparr>dni_cex = ''12345678'', nombre = ''PEREZ JUAN'', importe = Num (123456 / 100),
                   Referencia = ''REF000000001'', Estado = ''rechazada'',
                   Codigo_de_Rechazo = ''R001'',
                   Descripcion_de_Rechazo = ''DOCUMENTO ERRADO''\<rparr>],
              totalTransactions = 1, totalAmount = Num (toDouble (123456 / 100))\<rparr>"
proof -
  have h1: "extractRegistrosFromPdf ''Rechazos: Registro 5'' = [5]"
    by (simp add: registro_eval)
  have h2: "length (split (CHR 0x0A) sampleTxt) = 10"
    by (simp add: split_sampleTxt)
  have l: "split (CHR 0x0A) sampleTxt ! 9 = sampleLine"
    by (simp add: split_sampleTxt)
  have "handler_txt (Some ''Rechazos: Registro 5'') (Some sampleTxt) ''R001'' ''DOCUMENTO ERRADO''
          = Inr \<lparr>results = [txtRow (split (CHR 0x0A) sampleTxt ! 9) ''R001'' ''DOCUMENTO ERRADO''],
                 totalTransactions = 1,
                 totalAmount = jsadd (Num 0)
                   (importe (txtRow (split (CHR 0x0A) sampleTxt ! 9) ''R001'' ''DOCUMENTO ERRADO''))\<rparr>"
    using C4_text_path_single_record_amended
      [of "''Rechazos: Registro 5''" sampleTxt "''R001''" "''DOCUMENTO ERRADO''"] h1 h2
    by simp
  then have "handler_txt (Some ''Rechazos: Registro 5'') (Some sampleTxt) ''R001'' ''DOCUMENTO ERRADO''
       = Inr \<lparr>results =
                [\<lparr>dni_cex = ''12345678'', nombre = ''PEREZ JUAN'', importe = Num (123456 / 100),
                   Referencia = ''REF000000001'', Estado = ''rechazada'',
                   Codigo_de_Rechazo = ''R001'',
                   Descripcion_de_Rechazo = ''DOCUMENTO ERRADO''\<rparr>],
              totalTransactions = 1, totalAmount = Num (toDouble (123456 / 100))\<rparr>"
    by (simp del: jsadd.simps(1) add: l txtRow_sampleLine jsadd_zero)
  with h1 h2 show ?thesis
    by blast
qed

theorem C4_second_marker_counterexample:
  "occurrences ''Registro 5'' ''Registro 5 y Registro 1'' = 1
   \<and> length (split (CHR 0x0A) sampleTxt) = 10
   \<and> handler_txt (Some ''Registro 5 y Registro 1'') (Some sampleTxt) ''R001'' ''DOCUMENTO ERRADO''
       = Inr \<lparr>results =
                [emptyRow ''R001'' ''DOCUMENTO ERRADO'',
                 \<lparr>dni_cex = ''12345678'', nombre = ''PEREZ JUAN'', importe = Num (123456 / 100),
                   Referencia = ''REF000000001'', Estado = ''rechazada'',
                   Codigo_de_Rechazo = ''R001'',
                   Descripcion_de_Rechazo = ''DOCUMENTO ERRADO''\<rparr>],
              totalTransactions = 2, totalAmount = Num (toDouble (123456 / 100))\<rparr>"
proof -
  have o: "occurrences ''Registro 5'' ''Registro 5 y Registro 1'' = 1"
    by (simp add: occurrences_def)
  have l: "length (split (CHR 0x0A) sampleTxt) = 10"
    by (simp add: split_sampleTxt)
  have e: "extractRegistrosFromPdf ''Registro 5 y Registro 1'' = [1, 5]"
    by (simp add: registro_eval)
  have r2: "txtRow ''l2'' ''R001'' ''DOCUMENTO ERRADO'' = emptyRow ''R001'' ''DOCUMENTO ERRADO''"
    by (simp add: txtRow_short)
  have "handler_txt (Some ''Registro 5 y Registro 1'') (Some sampleTxt) ''R001'' ''DOCUMENTO ERRADO''
       = Inr (aggregate [emptyRow ''R001'' ''DOCUMENTO ERRADO'',
                         txtRow sampleLine ''R001'' ''DOCUMENTO ERRADO''])"
    by (simp add: handler_txt_Some e MULT_def split_sampleTxt r2)
  then have "handler_txt (Some ''Registro 5 y Registro 1'') (Some sampleTxt) ''R001'' ''DOCUMENTO ERRADO''
       = Inr \<lparr>results =
                [emptyRow ''R001'' ''DOCUMENTO ERRADO'',
                 \<lparr>dni_cex = ''12345678'', nombre = ''PEREZ JUAN'', importe = Num (123456 / 100),
                   Referencia = ''REF000000001'', Estado = ''rechazada'',
                   Codigo_de_Rechazo = ''R001'',
                   Descripcion_de_Rechazo = ''DOCUMENTO ERRADO''\<rparr>],
              totalTransactions = 2, totalAmount = Num (toDouble (123456 / 100))\<rparr>"
    by (simp del: jsadd.simps(1) add: txtRow_sampleLine aggregate_def emptyRow_def jsadd_zero toDouble_zero)
  with o l show ?thesis
    by blast
qed




lemma results_aggregate: "results (aggregate rows) = rows"
  by (simp add: aggregate_def)

lemma handler_ibk_Sheet:
  "handler_ibk (Some (Excel (Sheet data))) = Inr (aggregate (map ibkRow (filter hasStatus (drop 11 data))))"
  by (simp add: handler_ibk_def Let_def)




lemma ibkRow_code:
  assumes "cellAt row 14 = Str s" "trim s \<noteq> []"
  shows "hasStatus row"
    and "Codigo_de_Rechazo (ibkRow row)
          = (if (\<exists>kw\<in>set KEYWORDS_NO_TIT. \<exists>pre post. toLowerCase s = pre @ kw @ post)
             then ''R016'' else ''R002'')"
    and "Descripcion_de_Rechazo (ibkRow row)
          = (if (\<exists>kw\<in>set KEYWORDS_NO_TIT. \<exists>pre post. toLowerCase s = pre @ kw @ post)
             then ''CLIENTE NO TITULAR DE LA CUENTA'' else ''CUENTA INVALIDA'')"
proof -
  have ne: "s \<noteq> []"
    using assms(2) by (auto simp: trim_def)
  show "hasStatus row"
    using assms by (simp add: hasStatus_def String_def)
  have sit: "toLowerCase (String (orEmpty (cellAt row 14))) = toLowerCase s"
    using assms(1) ne by (simp add: orEmpty_def truthy_def String_def)
  have ex: "list_ex (\<lambda>kw. includesStr (toLowerCase s) kw) KEYWORDS_NO_TIT
            \<longleftrightarrow> (\<exists>kw\<in>set KEYWORDS_NO_TIT. \<exists>pre post. toLowerCase s = pre @ kw @ post)"
    by (simp only: list_ex_iff includesStr_iff)
  show "Codigo_de_Rechazo (ibkRow row)
          = (if (\<exists>kw\<in>set KEYWORDS_NO_TIT. \<exists>pre post. toLowerCase s = pre @ kw @ post)
             then ''R016'' else ''R002'')"
    unfolding ibkRow_def Let_def sit ex by simp
  show "Descripcion_de_Rechazo (ibkRow row)
          = (if (\<exists>kw\<in>set KEYWORDS_NO_TIT. \<exists>pre post. toLowerCase s = pre @ kw @ post)
             then ''CLIENTE NO TITULAR DE LA CUENTA'' else ''CUENTA INVALIDA'')"
    unfolding ibkRow_def Let_def sit ex by simp
qed

lemma ibk_row_emitted:
  assumes "11 \<le> i" "i < length data" "hasStatus (data ! i)"
  shows "ibkRow (data ! i) \<in> set (map ibkRow (filter hasStatus (drop 11 data)))"
proof -
  have "data ! i = drop 11 data ! (i - 11)" "i - 11 < length (drop 11 data)"
    using assms(1,2) by simp_all
  then have "data ! i \<in> set (drop 11 data)"
    by (metis nth_mem)
  then show ?thesis
    using assms(3) by simp
qed

lemma char_eq_char_of: "(c = char_of (n :: nat)) \<longleftrightarrow> (take_bit 8 n = of_char c)"
  using char_of_eq_iff [of n c] by auto

lemmas ibk_eval = ibkRow_def KEYWORDS_NO_TIT_def cellAt_def orEmpty_def truthy_def String_def
  toLowerCase_def toLowerChar_def char_of_eq_iff char_eq_char_of hasStatus_def trim_def isSpace_def sheetRow_def Let_def

lemma sampleSheet_length: "length sampleSheet = 14"
  by (simp add: sampleSheet_def)

lemma sampleSheet_rows:
  "sampleSheet ! 2 = []"
  "sampleSheet ! 11 = sheetRow ''41112223'' ''ROJAS ANA'' ''REF01'' ''1.234,56'' ''Cliente NO titular''"
  "sampleSheet ! 12 = sheetRow ''40001112'' ''DIAZ LUIS'' ''REF02'' ''10'' ''saldo insuficiente''"
  "sampleSheet ! 13 = sheetRow ''47778889'' ''SOTO EVA'' ''REF03'' ''5'' ''  ''"
  by (simp_all add: sampleSheet_def nth_append)

lemma drop_sampleSheet:
  "drop 11 sampleSheet =
     [sheetRow ''41112223'' ''ROJAS ANA'' ''REF01'' ''1.234,56'' ''Cliente NO titular'',
      sheetRow ''40001112'' ''DIAZ LUIS'' ''REF02'' ''10'' ''saldo insuficiente'',
      sheetRow ''47778889'' ''SOTO EVA'' ''REF03'' ''5'' ''  '']"
  by (simp add: sampleSheet_def)

text \<open>
  C5. Both orchestrators build rows for the in-range indices only and always complete. On the
  text path the accepted indices are the values \<open>registro * 2\<close> between 1 and the number of
  lines; on the spreadsheet path they are the values \<open>registro + 1\<close> from 0 up to, but not
  including, the number of rows. A record number whose index falls outside is left out, and
  the answer is still a success payload.
\<close>

theorem C5_row_index_mapper_in_range:
  "handler_txt (Some pdfText) (Some txtContent) code desc
     = Inr (aggregate (map (\<lambda>i. txtRow (split (CHR 0x0A) txtContent ! nat (i - 1)) code desc)
              (acceptedLineIndices pdfText (split (CHR 0x0A) txtContent))))
   \<and> (\<forall>i\<in>set (acceptedLineIndices pdfText lines).
         1 \<le> i \<and> i \<le> int (length lines) \<and> nat (i - 1) < length lines
         \<and> (\<exists>r\<in>set (extractRegistrosFromPdf pdfText). i = r * 2))
   \<and> (\<forall>r\<in>set (extractRegistrosFromPdf pdfText).
         r * 2 \<in> set (acceptedLineIndices pdfText lines) \<longleftrightarrow> 1 \<le> r * 2 \<and> r * 2 \<le> int (length lines))
   \<and> handler_xlsx (Some pdfText) (Some (Sheet data)) code desc
     = Inr (aggregate (map (\<lambda>i. xlsxRow (data ! the_enat i) code desc) (validRows pdfText data)))
   \<and> (\<forall>i\<in>set (validRows pdfText data).
         0 \<le> i \<and> i < enat (length data) \<and> the_enat i < length data
         \<and> (\<exists>ds\<in>set (matchAllRegistro None pdfText). i = plusOne (parseIntNumber ds)
               \<and> (length data \<le> 2 ^ 53 \<longrightarrow> int (the_enat i) = parseInt ds + 1)))
   \<and> (\<forall>i\<in>set (extractRowNumbersFromPdf pdfText).
         i \<in> set (validRows pdfText data) \<longleftrightarrow> 0 \<le> i \<and> i < enat (length data))"
proof -
  have t: "handler_txt (Some pdfText) (Some txtContent) code desc
     = Inr (aggregate (map (\<lambda>i. txtRow (split (CHR 0x0A) txtContent ! nat (i - 1)) code desc)
              (acceptedLineIndices pdfText (split (CHR 0x0A) txtContent))))"
    by (simp add: handler_txt_Some acceptedLineIndices_def)
  have ta: "1 \<le> i \<and> i \<le> int (length lines) \<and> nat (i - 1) < length lines
         \<and> (\<exists>r\<in>set (extractRegistrosFromPdf pdfText). i = r * 2)"
    if "i \<in> set (acceptedLineIndices pdfText lines)" for i
    using that by (auto simp: acceptedLineIndices_def MULT_def)
  have tb: "r * 2 \<in> set (acceptedLineIndices pdfText lines) \<longleftrightarrow> 1 \<le> r * 2 \<and> r * 2 \<le> int (length lines)"
    if "r \<in> set (extractRegistrosFromPdf pdfText)" for r
    using that by (auto simp: acceptedLineIndices_def MULT_def)
  have x: "handler_xlsx (Some pdfText) (Some (Sheet data)) code desc
     = Inr (aggregate (map (\<lambda>i. xlsxRow (data ! the_enat i) code desc) (validRows pdfText data)))"
    by (simp add: handler_xlsx_Sheet validRows_def)
  have xa: "0 \<le> i \<and> i < enat (length data) \<and> the_enat i < length data
         \<and> (\<exists>ds\<in>set (matchAllRegistro None pdfText). i = plusOne (parseIntNumber ds)
               \<and> (length data \<le> 2 ^ 53 \<longrightarrow> int (the_enat i) = parseInt ds + 1))"
    if "i \<in> set (validRows pdfText data)" for i
  proof -
    from that have m: "i \<in> set (extractRowNumbersFromPdf pdfText)" and lt: "i < enat (length data)"
      by (simp_all add: validRows_def)
    from m obtain ds where ds: "ds \<in> set (matchAllRegistro None pdfText)" "i = plusOne (parseIntNumber ds)"
      by (auto simp: set_extractRegistros)
    from lt obtain j where j: "i = enat j" "j < length data"
      by (cases i) simp_all
    have "int (the_enat i) = parseInt ds + 1" if "length data \<le> 2 ^ 53"
    proof -
      have "plusOne (parseIntNumber ds) = enat (digitsValue ds + 1)"
        using lt that unfolding ds(2) by (rule rowNumber_in_range)
      then show ?thesis
        by (simp add: ds(2) parseInt_def)
    qed
    then have exact: "length data \<le> 2 ^ 53 \<longrightarrow> int (the_enat i) = parseInt ds + 1"
      by blast
    have nonneg: "0 \<le> i"
      by simp
    have inside: "the_enat i < length data"
      using j by simp
    from nonneg lt inside ds exact show ?thesis
      by blast
  qed
  have xb: "i \<in> set (validRows pdfText data) \<longleftrightarrow> 0 \<le> i \<and> i < enat (length data)"
    if "i \<in> set (extractRowNumbersFromPdf pdfText)" for i
    using that by (auto simp: validRows_def)
  from t ta tb x xa xb show ?thesis
    by blast
qed

theorem C5_row_index_mapper_witness:
  "extractRegistrosFromPdf ''Registro 1 Registro 11 Registro 900'' = [1, 11, 900]
   \<and> acceptedLineIndices ''Registro 1 Registro 11 Registro 900'' (split (CHR 0x0A) sampleTxt) = [2]
   \<and> (1::int) \<le> 2 \<and> 2 \<le> int (length (split (CHR 0x0A) sampleTxt))
   \<and> 11 * 2 \<notin> set (acceptedLineIndices ''Registro 1 Registro 11 Registro 900'' (split (CHR 0x0A) sampleTxt))
   \<and> handler_txt (Some ''Registro 1 Registro 11 Registro 900'') (Some sampleTxt) ''R001'' ''DOCUMENTO ERRADO''
       = Inr (aggregate [emptyRow ''R001'' ''DOCUMENTO ERRADO''])
   \<and> extractRowNumbersFromPdf ''Registro 1 Registro 11 Registro 900'' = [2, 12, 901]
   \<and> validRows ''Registro 1 Registro 11 Registro 900'' sampleSheet = [2, 12]
   \<and> (0::enat) \<le> 12 \<and> 12 < enat (length sampleSheet) \<and> the_enat 12 < length sampleSheet
   \<and> (\<exists>ds. ds \<in> set (matchAllRegistro None ''Registro 1 Registro 11 Registro 900'')
         \<and> 12 = plusOne (parseIntNumber ds) \<and> int (the_enat 12) = parseInt ds + 1)
   \<and> 901 \<notin> set (validRows ''Registro 1 Registro 11 Registro 900'' sampleSheet)"
proof -
  let ?pdf = "''Registro 1 Registro 11 Registro 900''"
  note inst = C5_row_index_mapper_in_range [of ?pdf sampleTxt "''R001''" "''DOCUMENTO ERRADO''"
      "split (CHR 0x0A) sampleTxt" sampleSheet]
  have r: "extractRegistrosFromPdf ?pdf = [1, 11, 900]"
    by (simp add: registro_eval)
  have a: "acceptedLineIndices ?pdf (split (CHR 0x0A) sampleTxt) = [2]"
    by (simp add: acceptedLineIndices_def r MULT_def split_sampleTxt)
  then have m: "2 \<in> set (acceptedLineIndices ?pdf (split (CHR 0x0A) sampleTxt))"
    by simp
  have b: "(1::int) \<le> 2 \<and> 2 \<le> int (length (split (CHR 0x0A) sampleTxt))"
    using inst m by blast
  have "(11::int) \<in> set (extractRegistrosFromPdf ?pdf)"
    by (simp add: r)
  moreover have "\<not> (11::int) * 2 \<le> int (length (split (CHR 0x0A) sampleTxt))"
    by (simp add: split_sampleTxt)
  ultimately have o: "11 * 2 \<notin> set (acceptedLineIndices ?pdf (split (CHR 0x0A) sampleTxt))"
    using inst by blast
  have "handler_txt (Some ?pdf) (Some sampleTxt) ''R001'' ''DOCUMENTO ERRADO''
     = Inr (aggregate (map (\<lambda>i. txtRow (split (CHR 0x0A) sampleTxt ! nat (i - 1)) ''R001'' ''DOCUMENTO ERRADO'')
              (acceptedLineIndices ?pdf (split (CHR 0x0A) sampleTxt))))"
    using inst by blast
  then have h: "handler_txt (Some ?pdf) (Some sampleTxt) ''R001'' ''DOCUMENTO ERRADO''
       = Inr (aggregate [emptyRow ''R001'' ''DOCUMENTO ERRADO''])"
    unfolding a by (simp add: split_sampleTxt txtRow_short)
  have x: "extractRowNumbersFromPdf ?pdf = [2, 12, 901]"
    by (simp add: registro_eval)
  have v: "validRows ?pdf sampleSheet = [2, 12]"
    by (simp add: validRows_def x sampleSheet_length numeral_eq_enat)
  then have "12 \<in> set (validRows ?pdf sampleSheet)"
    by simp
  moreover have "length sampleSheet \<le> 2 ^ 53"
    by (simp add: sampleSheet_length)
  ultimately have vb: "(0::enat) \<le> 12 \<and> 12 < enat (length sampleSheet) \<and> the_enat 12 < length sampleSheet
      \<and> (\<exists>ds. ds \<in> set (matchAllRegistro None ?pdf)
            \<and> 12 = plusOne (parseIntNumber ds) \<and> int (the_enat 12) = parseInt ds + 1)"
    using inst by blast
  have "(901::enat) \<in> set (extractRowNumbersFromPdf ?pdf)"
    by (simp add: x)
  moreover have "\<not> (901::enat) < enat (length sampleSheet)"
    by (simp add: sampleSheet_length numeral_eq_enat)
  ultimately have vo: "901 \<notin> set (validRows ?pdf sampleSheet)"
    using inst by blast
  from r a b o h x v vb vo show ?thesis
    by blast
qed



lemmas lower_eval = toLowerCase_def toLowerChar_def char_of_eq_iff char_eq_char_of

lemma keyword_test:
  "(\<exists>kw\<in>set KEYWORDS_NO_TIT. \<exists>pre post. t = pre @ kw @ post)
     \<longleftrightarrow> list_ex (\<lambda>kw. includesStr t kw) KEYWORDS_NO_TIT"
  by (simp only: list_ex_iff includesStr_iff)

lemma ibkRow_status:
  "cellAt row 14 = Str s \<Longrightarrow> s \<noteq> [] \<Longrightarrow>
   Codigo_de_Rechazo (ibkRow row)
     = (if list_ex (\<lambda>kw. includesStr (toLowerCase s) kw) KEYWORDS_NO_TIT then ''R016'' else ''R002'')"
  by (simp add: ibkRow_def Let_def orEmpty_def truthy_def String_def)

text \<open>
  C6. On the archive path the records are built, in order, from the rows at index 11 or later
  whose status cell (index 14) is not blank. For such a row with status text \<open>s\<close> the
  rejection code is \<open>"R016"\<close> when the lower-cased \<open>s\<close> contains one of the phrases of
  \<open>KEYWORDS_NO_TIT\<close> and \<open>"R002"\<close> otherwise; \<open>"cliente no titular"\<close> gives
  \<open>"R016"\<close> and \<open>"saldo insuficiente"\<close> gives \<open>"R002"\<close>.
\<close>

theorem C6_archive_keyword_branch:
  "handler_ibk (Some (Excel (Sheet data)))
     = Inr (aggregate (map ibkRow (filter hasStatus (drop 11 data))))
   \<and> (11 \<le> i \<and> i < length data \<and> cellAt (data ! i) 14 = Str s \<and> trim s \<noteq> [] \<longrightarrow>
        ibkRow (data ! i) \<in> set (map ibkRow (filter hasStatus (drop 11 data)))
        \<and> Codigo_de_Rechazo (ibkRow (data ! i))
            = (if (\<exists>kw\<in>set KEYWORDS_NO_TIT. \<exists>pre post. toLowerCase s = pre @ kw @ post)
               then ''R016'' else ''R002''))
   \<and> (cellAt row 14 = Str ''cliente no titular'' \<longrightarrow> Codigo_de_Rechazo (ibkRow row) = ''R016'')
   \<and> (cellAt row 14 = Str ''saldo insuficiente'' \<longrightarrow> Codigo_de_Rechazo (ibkRow row) = ''R002'')"
proof -
  have g: "ibkRow (data ! i) \<in> set (map ibkRow (filter hasStatus (drop 11 data)))
        \<and> Codigo_de_Rechazo (ibkRow (data ! i))
            = (if (\<exists>kw\<in>set KEYWORDS_NO_TIT. \<exists>pre post. toLowerCase s = pre @ kw @ post)
               then ''R016'' else ''R002'')"
    if h: "11 \<le> i \<and> i < length data \<and> cellAt (data ! i) 14 = Str s \<and> trim s \<noteq> []"
  proof -
    have "hasStatus (data ! i)"
      using h ibkRow_code(1) by blast
    then have "ibkRow (data ! i) \<in> set (map ibkRow (filter hasStatus (drop 11 data)))"
      using h by (intro ibk_row_emitted) auto
    then show ?thesis
      using h ibkRow_code(2) [of "data ! i" s] by blast
  qed
  have e1: "Codigo_de_Rechazo (ibkRow row) = ''R016''" if "cellAt row 14 = Str ''cliente no titular''"
    using ibkRow_status [OF that] by (simp add: KEYWORDS_NO_TIT_def lower_eval)
  have e2: "Codigo_de_Rechazo (ibkRow row) = ''R002''" if "cellAt row 14 = Str ''saldo insuficiente''"
    using ibkRow_status [OF that] by (simp add: KEYWORDS_NO_TIT_def lower_eval)
  from handler_ibk_Sheet [of data] g e1 e2 show ?thesis
    by blast
qed

theorem C6_archive_keyword_witness:
  "handler_ibk (Some (Excel (Sheet sampleSheet)))
     = Inr \<lparr>results =
              [\<lparr>dni_cex = ''41112223'', nombre = ''ROJAS ANA'', importe = Num (123456 / 100),
                 Referencia = ''REF01'', Estado = ''rechazada'', Codigo_de_Rechazo = ''R016'',
                 Descripcion_de_Rechazo = ''CLIENTE NO TITULAR DE LA CUENTA''\<rparr>,
               \<lparr>dni_cex = ''40001112'', nombre = ''DIAZ LUIS'', importe = Num 10,
                 Referencia = ''REF02'', Estado = ''rechazada'', Codigo_de_Rechazo = ''R002'',
                 Descripcion_de_Rechazo = ''CUENTA INVALIDA''\<rparr>],
            totalTransactions = 2, totalAmount = Num (toDouble (124456 / 100))\<rparr>
   \<and> ibkRow (sampleSheet ! 11) \<in> set (map ibkRow (filter hasStatus (drop 11 sampleSheet)))
   \<and> Codigo_de_Rechazo (ibkRow (sampleSheet ! 11)) = ''R016''
   \<and> Codigo_de_Rechazo (ibkRow (sampleSheet ! 12)) = ''R002''
   \<and> Codigo_de_Rechazo (ibkRow (sheetRow [] [] [] [] ''cliente no titular'')) = ''R016''
   \<and> Codigo_de_Rechazo (ibkRow (sheetRow [] [] [] [] ''saldo insuficiente'')) = ''R002''"
proof -
  note i11 = C6_archive_keyword_branch [of sampleSheet 11 "''Cliente NO titular''"]
  note i12 = C6_archive_keyword_branch [of sampleSheet 12 "''saldo insuficiente''"]
  have h11: "11 \<le> (11::nat) \<and> 11 < length sampleSheet
      \<and> cellAt (sampleSheet ! 11) 14 = Str ''Cliente NO titular'' \<and> trim ''Cliente NO titular'' \<noteq> []"
    by (simp add: sampleSheet_length sampleSheet_rows cellAt_def sheetRow_def trim_def isSpace_def)
  have h12: "11 \<le> (12::nat) \<and> 12 < length sampleSheet
      \<and> cellAt (sampleSheet ! 12) 14 = Str ''saldo insuficiente'' \<and> trim ''saldo insuficiente'' \<noteq> []"
    by (simp add: sampleSheet_length sampleSheet_rows cellAt_def sheetRow_def trim_def isSpace_def)
  have k11: "\<exists>kw\<in>set KEYWORDS_NO_TIT. \<exists>pre post. toLowerCase ''Cliente NO titular'' = pre @ kw @ post"
    unfolding keyword_test by (simp add: KEYWORDS_NO_TIT_def lower_eval)
  have k12: "\<not> (\<exists>kw\<in>set KEYWORDS_NO_TIT. \<exists>pre post. toLowerCase ''saldo insuficiente'' = pre @ kw @ post)"
    unfolding keyword_test by (simp add: KEYWORDS_NO_TIT_def lower_eval)
  have m: "ibkRow (sampleSheet ! 11) \<in> set (map ibkRow (filter hasStatus (drop 11 sampleSheet)))"
    using i11 h11 by blast
  have "Codigo_de_Rechazo (ibkRow (sampleSheet ! 11))
          = (if (\<exists>kw\<in>set KEYWORDS_NO_TIT. \<exists>pre post. toLowerCase ''Cliente NO titular'' = pre @ kw @ post)
             then ''R016'' else ''R002'')"
    using i11 h11 by blast
  then have c11: "Codigo_de_Rechazo (ibkRow (sampleSheet ! 11)) = ''R016''"
    using k11 by (simp only: if_True)
  have "Codigo_de_Rechazo (ibkRow (sampleSheet ! 12))
          = (if (\<exists>kw\<in>set KEYWORDS_NO_TIT. \<exists>pre post. toLowerCase ''saldo insuficiente'' = pre @ kw @ post)
             then ''R016'' else ''R002'')"
    using i12 h12 by blast
  then have c12: "Codigo_de_Rechazo (ibkRow (sampleSheet ! 12)) = ''R002''"
    using k12 by (simp only: if_False)
  have "handler_ibk (Some (Excel (Sheet sampleSheet)))
          = Inr (aggregate (map ibkRow (filter hasStatus (drop 11 sampleSheet))))"
    using i11 by blast
  then have p: "handler_ibk (Some (Excel (Sheet sampleSheet)))
     = Inr \<lparr>results =
              [\<lparr>dni_cex = ''41112223'', nombre = ''ROJAS ANA'', importe = Num (123456 / 100),
                 Referencia = ''REF01'', Estado = ''rechazada'', Codigo_de_Rechazo = ''R016'',
                 Descripcion_de_Rechazo = ''CLIENTE NO TITULAR DE LA CUENTA''\<rparr>,
               \<lparr>dni_cex = ''40001112'', nombre = ''DIAZ LUIS'', importe = Num 10,
                 Referencia = ''REF02'', Estado = ''rechazada'', Codigo_de_Rechazo = ''R002'',
                 Descripcion_de_Rechazo = ''CUENTA INVALIDA''\<rparr>],
            totalTransactions = 2, totalAmount = Num (toDouble (124456 / 100))\<rparr>"
    by (simp del: jsadd.simps(1)
        add: drop_sampleSheet aggregate_def ibk_eval amount_eval ESTADO_def jsadd_zero jsadd_1234_56_10_normal)
  have x1: "cellAt (sheetRow [] [] [] [] ''cliente no titular'') 14 = Str ''cliente no titular''"
    by (simp add: cellAt_def sheetRow_def)
  have x2: "cellAt (sheetRow [] [] [] [] ''saldo insuficiente'') 14 = Str ''saldo insuficiente''"
    by (simp add: cellAt_def sheetRow_def)
  have e1: "Codigo_de_Rechazo (ibkRow (sheetRow [] [] [] [] ''cliente no titular'')) = ''R016''"
    using C6_archive_keyword_branch [of _ _ _ "sheetRow [] [] [] [] ''cliente no titular''"] x1 by blast
  have e2: "Codigo_de_Rechazo (ibkRow (sheetRow [] [] [] [] ''saldo insuficiente'')) = ''R002''"
    using C6_archive_keyword_branch [of _ _ _ "sheetRow [] [] [] [] ''saldo insuficiente''"] x2 by blast
  from p m c11 c12 e1 e2 show ?thesis
    by blast
qed

text \<open>
  C10. On the archive path, a row at index 11 or later whose status text is not blank and,
  lower-cased, contains \<open>continuar\<close> is emitted with rejection code \<open>"R016"\<close> and
  description \<open>"CLIENTE NO TITULAR DE LA CUENTA"\<close>, whatever else the text says;
  \<open>"si deseas, puedes continuar"\<close> is such a text.
\<close>

theorem C10_continuar_is_R016:
  "(11 \<le> i \<and> i < length data \<and> cellAt (data ! i) 14 = Str s \<and> trim s \<noteq> []
      \<and> (\<exists>pre post. toLowerCase s = pre @ ''continuar'' @ post) \<longrightarrow>
        (\<exists>p. handler_ibk (Some (Excel (Sheet data))) = Inr p \<and> ibkRow (data ! i) \<in> set (results p))
        \<and> Codigo_de_Rechazo (ibkRow (data ! i)) = ''R016''
        \<and> Codigo_de_Rechazo (ibkRow (data ! i)) \<noteq> ''R002''
        \<and> Descripcion_de_Rechazo (ibkRow (data ! i)) = ''CLIENTE NO TITULAR DE LA CUENTA'')
   \<and> (cellAt row 14 = Str ''si deseas, puedes continuar'' \<longrightarrow>
        Codigo_de_Rechazo (ibkRow row) = ''R016''
        \<and> Descripcion_de_Rechazo (ibkRow row) = ''CLIENTE NO TITULAR DE LA CUENTA'')"
proof -
  have kw: "''continuar'' \<in> set KEYWORDS_NO_TIT"
    by (simp add: KEYWORDS_NO_TIT_def)
  have g: "(\<exists>p. handler_ibk (Some (Excel (Sheet data))) = Inr p \<and> ibkRow (data ! i) \<in> set (results p))
        \<and> Codigo_de_Rechazo (ibkRow (data ! i)) = ''R016''
        \<and> Codigo_de_Rechazo (ibkRow (data ! i)) \<noteq> ''R002''
        \<and> Descripcion_de_Rechazo (ibkRow (data ! i)) = ''CLIENTE NO TITULAR DE LA CUENTA''"
    if h: "11 \<le> i \<and> i < length data \<and> cellAt (data ! i) 14 = Str s \<and> trim s \<noteq> []
      \<and> (\<exists>pre post. toLowerCase s = pre @ ''continuar'' @ post)"
  proof -
    have c: "\<exists>kw\<in>set KEYWORDS_NO_TIT. \<exists>pre post. toLowerCase s = pre @ kw @ post"
      using h kw by blast
    have "hasStatus (data ! i)"
      using h ibkRow_code(1) by blast
    then have "ibkRow (data ! i) \<in> set (map ibkRow (filter hasStatus (drop 11 data)))"
      using h by (intro ibk_row_emitted) auto
    then have "ibkRow (data ! i) \<in> set (results (aggregate (map ibkRow (filter hasStatus (drop 11 data)))))"
      by (simp only: results_aggregate)
    then have e: "\<exists>p. handler_ibk (Some (Excel (Sheet data))) = Inr p \<and> ibkRow (data ! i) \<in> set (results p)"
      using handler_ibk_Sheet [of data] by blast
    have "Codigo_de_Rechazo (ibkRow (data ! i))
            = (if (\<exists>kw\<in>set KEYWORDS_NO_TIT. \<exists>pre post. toLowerCase s = pre @ kw @ post)
               then ''R016'' else ''R002'')"
      using h ibkRow_code(2) [of "data ! i" s] by blast
    then have c1: "Codigo_de_Rechazo (ibkRow (data ! i)) = ''R016''"
      using c by simp
    have "Descripcion_de_Rechazo (ibkRow (data ! i))
            = (if (\<exists>kw\<in>set KEYWORDS_NO_TIT. \<exists>pre post. toLowerCase s = pre @ kw @ post)
               then ''CLIENTE NO TITULAR DE LA CUENTA'' else ''CUENTA INVALIDA'')"
      using h ibkRow_code(3) [of "data ! i" s] by blast
    then have c2: "Descripcion_de_Rechazo (ibkRow (data ! i)) = ''CLIENTE NO TITULAR DE LA CUENTA''"
      using c by simp
    from e c1 c2 show ?thesis
      by simp
  qed
  have x: "Codigo_de_Rechazo (ibkRow row) = ''R016''
        \<and> Descripcion_de_Rechazo (ibkRow row) = ''CLIENTE NO TITULAR DE LA CUENTA''"
    if "cellAt row 14 = Str ''si deseas, puedes continuar''"
    using that
    by (simp add: ibkRow_def Let_def orEmpty_def truthy_def String_def KEYWORDS_NO_TIT_def
        lower_eval)
  from g x show ?thesis
    by blast
qed

theorem C10_continuar_witness:
  "Codigo_de_Rechazo
     (ibkRow ((replicate 11 [] @ [sheetRow ''1'' ''N'' ''R'' ''5'' ''Si deseas, puedes CONTINUAR luego'']) ! 11))
     = ''R016''
   \<and> Descripcion_de_Rechazo
     (ibkRow ((replicate 11 [] @ [sheetRow ''1'' ''N'' ''R'' ''5'' ''Si deseas, puedes CONTINUAR luego'']) ! 11))
     = ''CLIENTE NO TITULAR DE LA CUENTA''
   \<and> (\<exists>p. handler_ibk (Some (Excel (Sheet
          (replicate 11 [] @ [sheetRow ''1'' ''N'' ''R'' ''5'' ''Si deseas, puedes CONTINUAR luego''])))) = Inr p
        \<and> length (results p) = 1
        \<and> ibkRow ((replicate 11 [] @ [sheetRow ''1'' ''N'' ''R'' ''5'' ''Si deseas, puedes CONTINUAR luego'']) ! 11)
            \<in> set (results p))
   \<and> Codigo_de_Rechazo (ibkRow (sheetRow [] [] [] [] ''si deseas, puedes continuar'')) = ''R016''"
proof -
  let ?s = "''Si deseas, puedes CONTINUAR luego''"
  let ?data = "replicate 11 [] @ [sheetRow ''1'' ''N'' ''R'' ''5'' ?s]"
  note inst = C10_continuar_is_R016 [of 11 ?data ?s "sheetRow [] [] [] [] ''si deseas, puedes continuar''"]
  have "toLowerCase ?s = ''si deseas, puedes '' @ ''continuar'' @ '' luego''"
    by (simp add: lower_eval)
  then have c: "\<exists>pre post. toLowerCase ?s = pre @ ''continuar'' @ post"
    by blast
  have h: "11 \<le> (11::nat) \<and> 11 < length ?data \<and> cellAt (?data ! 11) 14 = Str ?s \<and> trim ?s \<noteq> []"
    by (simp add: nth_append cellAt_def sheetRow_def trim_def isSpace_def)
  have r: "(\<exists>p. handler_ibk (Some (Excel (Sheet ?data))) = Inr p \<and> ibkRow (?data ! 11) \<in> set (results p))
        \<and> Codigo_de_Rechazo (ibkRow (?data ! 11)) = ''R016''
        \<and> Descripcion_de_Rechazo (ibkRow (?data ! 11)) = ''CLIENTE NO TITULAR DE LA CUENTA''"
    using inst h c by blast
  have l: "handler_ibk (Some (Excel (Sheet ?data))) = Inr p \<Longrightarrow> length (results p) = 1" for p
    by (auto simp: handler_ibk_Sheet results_aggregate hasStatus_def cellAt_def sheetRow_def
        String_def trim_def isSpace_def)
  have x: "cellAt (sheetRow [] [] [] [] ''si deseas, puedes continuar'') 14 = Str ''si deseas, puedes continuar''"
    by (simp add: cellAt_def sheetRow_def)
  have e: "Codigo_de_Rechazo (ibkRow (sheetRow [] [] [] [] ''si deseas, puedes continuar'')) = ''R016''"
    using inst x by blast
  from r l e show ?thesis
    by blast
qed

section \<open>A digit run beyond the range of a double\<close>

text \<open>
  The bound of 308 digits in the finiteness result cannot be dropped: the digit 1 followed by
  309 zeros denotes \<open>10 ^ 309\<close>, which is beyond the largest double, and the parser
  answers Infinity.
\<close>

lemma split_no_sep: "sep \<notin> set s \<Longrightarrow> split sep s = [s]"
  by (induction s) auto

lemma digitsValue_Nil: "digitsValue [] = 0"
  by (simp add: digitsValue_def)

lemma all_digits_clean:
  assumes "\<forall>c\<in>set s. isDigit c"
  shows "cleanAmount s = s"
proof -
  have d: "\<not> isDigit (CHR ''.'')" "\<not> isDigit (CHR '','')"
    by (simp_all add: isDigit_def)
  have f: "filter keepAmountChar s = s"
    using assms by (simp add: keepAmountChar_def filter_id_conv)
  have n: "CHR ''.'' \<notin> set s" "CHR '','' \<notin> set s"
    using assms d by auto
  show ?thesis
    using n by (simp add: cleanAmount_def f resolveSeparators_def collapseDots_def split_no_sep)
qed

lemma overflow_example:
  "parseAmount_txt (CHR ''1'' # replicate 309 (CHR ''0'')) = PosInfinity"
proof -
  let ?s = "CHR ''1'' # replicate 309 (CHR ''0'')"
  have dig: "\<forall>c\<in>set ?s. isDigit c"
    by (simp add: isDigit_def)
  have c: "cleanAmount ?s = ?s"
    using dig by (rule all_digits_clean)
  have tw: "takeWhile isDigit ?s = ?s" "dropWhile isDigit ?s = []"
    using dig by (simp_all only: takeWhile_eq_all_conv dropWhile_eq_Nil_conv) 
  have v: "digitsValue ?s = 10 ^ 309"
    by (rule digitsValue_one_zeros)
  have m: "strMantissa ?s = Some (10 ^ 309, [])"
    unfolding strMantissa_def Let_def tw by (simp add: v digitsValue_Nil)
  have sg: "strSign (dropWhile isSpace ?s) = (False, ?s)"
    by (simp add: strSign_def isSpace_def)
  have big: "DBL_OVERFLOW \<le> 10 ^ 309"
    by (simp add: DBL_OVERFLOW_def)
  have "parseFloat ?s = PosInfinity"
    unfolding parseFloat_def sg using big
    by (simp add: m exponentPart_def scale10_def toNumber_def)
  then show ?thesis
    by (simp add: parseAmount_txt_def stripAmount_def c orElse_def)
qed

end
